theory Spec2Isabelle
  imports Main "HOL-Library.Sublist"
begin

section \<open>The source collector \<^verbatim>\<open>combine_sources.py\<close>\<close>

text \<open>
  The script walks the working directory, selects three groups of paths, and writes one
  block per selected path into \<^verbatim>\<open>combined.txt\<close>. Its whole behaviour is calls into
  the Python library (\<^verbatim>\<open>pathlib\<close>, text files, the UTF-8 codec), so the embedding
  writes out what those calls do:
  \<^item> a \<^verbatim>\<open>str\<close> is held as bytes, one \<^typ>\<open>char\<close> per byte: text as its UTF-8
    encoding, and a name as the bytes the operating system has for it, where a byte
    outside every well-formed sequence stands for the lone surrogate that
    \<^verbatim>\<open>os.fsdecode\<close> makes of it. Encoding for the output file is then the identity
    on well-formed bytes and raises on the others;
  \<^item> the working tree consists of regular files and directories (no symbolic
    links), every one of them readable; the entries of a directory are an
    association list in the order in which the directory is scanned;
  \<^item> the host is a POSIX one: names are matched case-sensitively and paths are
    rendered with slashes. The line separator of the host stays a parameter.
\<close>

subsection \<open>Bytes and characters\<close>

definition CR :: char where
  "CR = CHR 0x0D"

definition LF :: char where
  "LF = CHR 0x0A"

definition CRLF :: string where
  "CRLF = [CR, LF]"

subsection \<open>The working tree\<close>

datatype node = File "char list" | Dir "(string \<times> node) list"

type_synonym entries = "(string \<times> node) list"

type_synonym path = "string list"

datatype error = IsADirectoryError | FileNotFoundError | UnicodeDecodeError | UnicodeEncodeError

text \<open>\<^verbatim>\<open>Path\<close> lookup relative to the working directory; \<open>p\<close> is \<^verbatim>\<open>f.parts\<close>.\<close>

fun lookup_path :: "entries \<Rightarrow> path \<Rightarrow> node option" where
  "lookup_path es [] = None"
| "lookup_path es [n] = map_of es n"
| "lookup_path es (n # p) =
     (case map_of es n of Some (Dir sub) \<Rightarrow> lookup_path sub p | _ \<Rightarrow> None)"

text \<open>Names are unique within a directory, at every level.\<close>

fun wf_entries :: "entries \<Rightarrow> bool" where
  "wf_entries [] = True"
| "wf_entries ((n, File b) # es) = (n \<notin> fst ` set es \<and> wf_entries es)"
| "wf_entries ((n, Dir sub) # es) = (n \<notin> fst ` set es \<and> wf_entries sub \<and> wf_entries es)"

subsection \<open>Globbing\<close>

text \<open>
  \<^verbatim>\<open>fnmatch\<close> of a name against \<^verbatim>\<open>*.rs\<close>: the name ends with the literal text after
  the star. A name without wildcard matches itself only.
\<close>

definition ends_with :: "string \<Rightarrow> string \<Rightarrow> bool" where
  "ends_with sfx n = (take (length sfx) (rev n) = rev sfx)"

text \<open>The entries of one directory that the last pattern component selects, in scan order.\<close>

fun matches_in :: "(string \<Rightarrow> bool) \<Rightarrow> path \<Rightarrow> entries \<Rightarrow> path list" where
  "matches_in pat pre [] = []"
| "matches_in pat pre ((n, x) # es) =
     (if pat n then (pre @ [n]) # matches_in pat pre es else matches_in pat pre es)"

text \<open>
  \<^verbatim>\<open>Path(".").rglob(pattern)\<close> is the selector for \<^verbatim>\<open>**/pattern\<close>: it visits the start
  directory and then every directory below it, parents before children, and yields
  the matching entries of each, files and directories alike. \<open>rglob_below\<close> is the
  part for the directories below. The order is that of the recursive generator of
  CPython 3.11: the matches of a directory, then its subdirectories one after the
  other in scan order, each with everything below it.
\<close>

fun rglob_below :: "(string \<Rightarrow> bool) \<Rightarrow> path \<Rightarrow> entries \<Rightarrow> path list" where
  "rglob_below pat pre [] = []"
| "rglob_below pat pre ((n, File b) # es) = rglob_below pat pre es"
| "rglob_below pat pre ((n, Dir sub) # es) =
     matches_in pat (pre @ [n]) sub @ rglob_below pat (pre @ [n]) sub @ rglob_below pat pre es"

definition rglob :: "(string \<Rightarrow> bool) \<Rightarrow> entries \<Rightarrow> path list" where
  "rglob pat es = matches_in pat [] es @ rglob_below pat [] es"

definition rs_files :: "entries \<Rightarrow> path list" where
  "rs_files es = filter (\<lambda>f. ''target'' \<notin> set f) (rglob (ends_with ''.rs'') es)"

definition pest_files :: "entries \<Rightarrow> path list" where
  "pest_files es = filter (\<lambda>f. ''addons'' \<notin> set f) (rglob (ends_with ''.pest'') es)"

definition cargo_toml :: "entries \<Rightarrow> path list" where
  "cargo_toml es = filter (\<lambda>f. ''addons'' \<notin> set f) (rglob (\<lambda>n. n = ''Cargo.toml'') es)"

text \<open>\<^verbatim>\<open>chain(rs_files, pest_files, cargo_toml)\<close>\<close>

definition selected :: "entries \<Rightarrow> path list" where
  "selected es = rs_files es @ pest_files es @ cargo_toml es"

subsection \<open>Reading a file as text\<close>

text \<open>
  \<^verbatim>\<open>file.read_text(encoding="utf-8", errors="ignore")\<close> opens the file in text mode
  with the default \<^verbatim>\<open>newline=None\<close>, decodes all its bytes at once, and passes the
  decoded text through the universal-newlines translation.

  The UTF-8 decoder is CPython's. A lead byte below 80 stands alone; C2 to DF takes
  one continuation byte (80 to BF), E0 to EF two, F0 to F4 three; after E0 the first
  continuation byte is at least A0, after ED at most 9F (no surrogates), after F0 at
  least 90, after F4 at most 8F; every other byte is an invalid start byte.
  It examines the sequence starting at a lead byte \<open>c\<close>, with \<open>s\<close> the
  bytes after it. \<open>Seq k\<close>: a well-formed sequence of \<open>c\<close> and \<open>k\<close> continuation bytes.
  \<open>Bad k\<close>: an error whose range is \<open>c\<close> and the \<open>k\<close> bytes after it (an invalid start
  byte, an invalid continuation byte after \<open>k\<close> good ones, or data that ends inside a
  sequence, where the range runs to the end).
\<close>

datatype scan = Seq nat | Bad nat

definition byte :: "char \<Rightarrow> nat" where
  "byte c = of_char c"

definition is_cont :: "char \<Rightarrow> bool" where
  "is_cont c = (0x80 \<le> byte c \<and> byte c < 0xC0)"

definition utf8_scan :: "char \<Rightarrow> char list \<Rightarrow> scan" where
  "utf8_scan c s =
     (let ch = byte c in
      if ch < 0x80 then Seq 0
      else if ch < 0xE0 then
        (if ch < 0xC2 then Bad 0
         else case s of
             [] \<Rightarrow> Bad 0
           | c2 # _ \<Rightarrow> if \<not> is_cont c2 then Bad 0 else Seq 1)
      else if ch < 0xF0 then
        (case s of
             [] \<Rightarrow> Bad 0
           | [c2] \<Rightarrow>
               if \<not> is_cont c2 \<or> (if byte c2 < 0xA0 then ch = 0xE0 else ch = 0xED)
               then Bad 0 else Bad 1
           | c2 # c3 # _ \<Rightarrow>
               if \<not> is_cont c2 then Bad 0
               else if ch = 0xE0 \<and> byte c2 < 0xA0 then Bad 0
               else if ch = 0xED \<and> 0xA0 \<le> byte c2 then Bad 0
               else if \<not> is_cont c3 then Bad 1
               else Seq 2)
      else if ch < 0xF5 then
        (case s of
             [] \<Rightarrow> Bad 0
           | [c2] \<Rightarrow>
               if \<not> is_cont c2 \<or> (if byte c2 < 0x90 then ch = 0xF0 else ch = 0xF4)
               then Bad 0 else Bad 1
           | [c2, c3] \<Rightarrow>
               if \<not> is_cont c2 \<or> (if byte c2 < 0x90 then ch = 0xF0 else ch = 0xF4)
               then Bad 0
               else if \<not> is_cont c3 then Bad 1 else Bad 2
           | c2 # c3 # c4 # _ \<Rightarrow>
               if \<not> is_cont c2 then Bad 0
               else if ch = 0xF0 \<and> byte c2 < 0x90 then Bad 0
               else if ch = 0xF4 \<and> 0x90 \<le> byte c2 then Bad 0
               else if \<not> is_cont c3 then Bad 1
               else if \<not> is_cont c4 then Bad 2
               else Seq 3)
      else Bad 0)"

text \<open>
  The error handler: \<^verbatim>\<open>strict\<close> raises, \<^verbatim>\<open>ignore\<close> resumes after the error range
  and adds nothing to the text.
\<close>

datatype errors_mode = Strict | Ignore

fun utf8_decode :: "errors_mode \<Rightarrow> char list \<Rightarrow> error + string" where
  "utf8_decode m [] = Inr []"
| "utf8_decode m (c # s) =
     (case utf8_scan c s of
        Seq k \<Rightarrow>
          (case utf8_decode m (drop k s) of
             Inl e \<Rightarrow> Inl e
           | Inr t \<Rightarrow> Inr (c # take k s @ t))
      | Bad k \<Rightarrow>
          (case m of
             Strict \<Rightarrow> Inl UnicodeDecodeError
           | Ignore \<Rightarrow> utf8_decode m (drop k s)))"

text \<open>
  The newline decoder in translating mode:
  \<^verbatim>\<open>output.replace("\r\n", "\n").replace("\r", "\n")\<close>.
\<close>

fun replace_crlf :: "string \<Rightarrow> string" where
  "replace_crlf (c # d # s) =
     (if c = CR \<and> d = LF then LF # replace_crlf s else c # replace_crlf (d # s))"
| "replace_crlf s = s"

fun replace_cr :: "string \<Rightarrow> string" where
  "replace_cr [] = []"
| "replace_cr (c # s) = (if c = CR then LF else c) # replace_cr s"

definition universal_newlines :: "string \<Rightarrow> string" where
  "universal_newlines t = replace_cr (replace_crlf t)"

definition read_text :: "entries \<Rightarrow> path \<Rightarrow> errors_mode \<Rightarrow> error + string" where
  "read_text es f m =
     (case lookup_path es f of
        None \<Rightarrow> Inl FileNotFoundError
      | Some (Dir sub) \<Rightarrow> Inl IsADirectoryError
      | Some (File b) \<Rightarrow>
          (case utf8_decode m b of
             Inl e \<Rightarrow> Inl e
           | Inr t \<Rightarrow> Inr (universal_newlines t)))"

subsection \<open>Writing text\<close>

text \<open>
  The host: its \<^verbatim>\<open>os.linesep\<close> and the components of the absolute path of the
  working directory.
\<close>

record host =
  linesep :: string
  cwd :: path

text \<open>
  \<^verbatim>\<open>write\<close> on a text file opened with a given \<^verbatim>\<open>newline\<close> argument (\<open>None\<close> for
  Python's \<^verbatim>\<open>None\<close>): line feeds are replaced by the file's line terminator unless
  the argument is the empty string.
\<close>

fun replace_lf :: "string \<Rightarrow> string \<Rightarrow> string" where
  "replace_lf nl [] = []"
| "replace_lf nl (c # s) = (if c = LF then nl @ replace_lf nl s else c # replace_lf nl s)"

definition text_write :: "string option \<Rightarrow> host \<Rightarrow> string \<Rightarrow> string" where
  "text_write newline h s =
     (let writetranslate = (newline \<noteq> Some []);
          writenl = (case newline of None \<Rightarrow> linesep h
                     | Some nl \<Rightarrow> if nl = [] then linesep h else nl)
      in if writetranslate \<and> writenl \<noteq> [LF] then replace_lf writenl s else s)"

text \<open>\<^verbatim>\<open>str(file.resolve())\<close>: the working directory's absolute path, then the parts.\<close>

definition resolve :: "host \<Rightarrow> path \<Rightarrow> string" where
  "resolve h f = concat (map (\<lambda>part. ''/'' @ part) (cwd h @ f))"

text \<open>
  The strict UTF-8 encoder of the output file accepts a \<^verbatim>\<open>str\<close> without lone
  surrogates, that is, one whose bytes are well-formed UTF-8.
\<close>

definition encodable :: "string \<Rightarrow> bool" where
  "encodable s = (case utf8_decode Strict s of Inr t \<Rightarrow> True | Inl e \<Rightarrow> False)"

text \<open>
  \<^verbatim>\<open>out.write(s)\<close> on the handle of the script, opened with \<^verbatim>\<open>encoding="utf-8"\<close> and
  \<^verbatim>\<open>newline=""\<close>, with \<open>out\<close> written so far: the new content, or the exception.
\<close>

definition out_write :: "host \<Rightarrow> string \<Rightarrow> string \<Rightarrow> error + string" where
  "out_write h out s =
     (let s' = text_write (Some []) h s
      in if encodable s' then Inr (out @ s') else Inl UnicodeEncodeError)"

subsection \<open>The script\<close>

definition OUTPUT :: string where
  "OUTPUT = ''combined.txt''"

text \<open>
  \<^verbatim>\<open>if OUTPUT.exists(): OUTPUT.unlink()\<close>. Unlinking a directory raises; unlinking a
  file removes the entry of that name.
\<close>

definition unlink_output :: "entries \<Rightarrow> error + entries" where
  "unlink_output es =
     (case map_of es OUTPUT of
        None \<Rightarrow> Inr es
      | Some (Dir sub) \<Rightarrow> Inl IsADirectoryError
      | Some (File b) \<Rightarrow> Inr (filter (\<lambda>(n, x). n \<noteq> OUTPUT) es))"

text \<open>\<^verbatim>\<open>'//'*10\<close>\<close>

definition banner :: string where
  "banner = concat (replicate 10 ''//'')"

text \<open>
  The loop over the chained lists. \<open>out\<close> is what has been written to the handle so
  far. Each of the five writes can raise on text that cannot be encoded, and the read
  can raise; the loop is then left with what the writes before have written.
  Reads go to the tree as it was when the lists were built: the file that the
  handle writes to is the only entry that changes meanwhile.
\<close>

fun write_loop :: "host \<Rightarrow> entries \<Rightarrow> path list \<Rightarrow> string \<Rightarrow> string \<times> error option" where
  "write_loop h es [] out = (out, None)"
| "write_loop h es (f # fs) out =
     (case out_write h out (banner @ CRLF) of
        Inl e \<Rightarrow> (out, Some e)
      | Inr out1 \<Rightarrow>
     (case out_write h out1 (''# '' @ resolve h f @ CRLF) of
        Inl e \<Rightarrow> (out1, Some e)
      | Inr out2 \<Rightarrow>
     (case out_write h out2 (banner @ CRLF) of
        Inl e \<Rightarrow> (out2, Some e)
      | Inr out3 \<Rightarrow>
     (case read_text es f Ignore of
        Inl e \<Rightarrow> (out3, Some e)
      | Inr t \<Rightarrow>
     (case out_write h out3 t of
        Inl e \<Rightarrow> (out3, Some e)
      | Inr out4 \<Rightarrow>
     (case out_write h out4 (CRLF @ CRLF) of
        Inl e \<Rightarrow> (out4, Some e)
      | Inr out5 \<Rightarrow> write_loop h es fs out5))))))"

record result =
  tree :: entries
  console :: "string list"
  err :: "error option"

text \<open>
  The whole script. The \<^verbatim>\<open>with\<close> block closes the handle on every way out, so what was
  written is in the file also when the loop was left by an exception.
\<close>

definition run :: "host \<Rightarrow> entries \<Rightarrow> result" where
  "run h es =
     (case unlink_output es of
        Inl e \<Rightarrow> \<lparr>tree = es, console = [], err = Some e\<rparr>
      | Inr es1 \<Rightarrow>
          (let con1 = [''[+] Collecting .gd / .tscn files...''];
               (out, r) = write_loop h es1 (selected es1) []
           in \<lparr>tree = es1 @ [(OUTPUT, File out)],
               console = (case r of
                            None \<Rightarrow> con1 @ [''[+] Done! Output written to '' @ OUTPUT]
                          | Some e \<Rightarrow> con1),
               err = r\<rparr>))"

text \<open>The content of \<^verbatim>\<open>combined.txt\<close> after a run, if it is a file.\<close>

definition output_of :: "result \<Rightarrow> string option" where
  "output_of r = (case map_of (tree r) OUTPUT of Some (File b) \<Rightarrow> Some b | _ \<Rightarrow> None)"

subsection \<open>Notions used to state the properties\<close>

text \<open>The text that reading \<open>f\<close> gives (empty where the read raises).\<close>

definition file_text :: "entries \<Rightarrow> path \<Rightarrow> string" where
  "file_text es f = (case read_text es f Ignore of Inr t \<Rightarrow> t | Inl e \<Rightarrow> [])"

text \<open>What the three writes before the read append for \<open>f\<close>.\<close>

definition header :: "host \<Rightarrow> path \<Rightarrow> string" where
  "header h f = banner @ CRLF @ ''# '' @ resolve h f @ CRLF @ banner @ CRLF"

text \<open>What one full pass of the loop body appends for \<open>f\<close>.\<close>

definition block :: "host \<Rightarrow> entries \<Rightarrow> path \<Rightarrow> string" where
  "block h es f = header h f @ file_text es f @ CRLF @ CRLF"

definition is_file :: "entries \<Rightarrow> path \<Rightarrow> bool" where
  "is_file es f = (case lookup_path es f of Some (File b) \<Rightarrow> True | _ \<Rightarrow> False)"

subsection \<open>Example inputs\<close>

definition example_host :: host where
  "example_host = \<lparr>linesep = [LF], cwd = [''home'', ''u'']\<rparr>"

text \<open>The tree of the specification's example: one file of each group.\<close>

definition example_tree :: entries where
  "example_tree =
     [(''src'', Dir [(''main.rs'', File ''fn main() {}'')]),
      (''grammar'', Dir [(''expr.pest'', File ''expr = { ... }'')]),
      (''Cargo.toml'', File ''[package]'')]"

text \<open>A tree with files in excluded directories, and one left by an earlier run.\<close>

definition excluded_tree :: entries where
  "excluded_tree =
     [(''target'', Dir [(''gen.rs'', File ''fn g() {}'')]),
      (''addons'', Dir [(''g.pest'', File ''a = { b }''), (''Cargo.toml'', File ''[lib]'')]),
      (''lib.rs'', File ''mod a;'')]"

definition rerun_tree :: entries where
  "rerun_tree = [(''combined.txt'', File ''old output''), (''lib.rs'', File ''mod a;'')]"

text \<open>A file with CR LF line ends, and one with bytes that are not UTF-8.\<close>

definition crlf_tree :: entries where
  "crlf_tree = [(''a.rs'', File [CHR ''x'', CHR 0x0D, CHR 0x0A, CHR ''y''])]"

text \<open>A file whose name is not UTF-8.\<close>

definition bad_name_tree :: entries where
  "bad_name_tree = [(CHR 0xFF # ''.rs'', File ''fn f() {}'')]"

definition invalid_tree :: entries where
  "invalid_tree =
     [(''a.rs'', File [CHR ''a'', CHR 0xFF, CHR ''b'', CHR 0xC3, CHR 0xA9, CHR 0xE2, CHR 0x82]),
      (''b.rs'', File ''ok'')]"

section \<open>Properties of the library calls and of the loop\<close>

lemma text_write_none [simp]: "text_write (Some []) h s = s"
  by (simp add: text_write_def)

lemma utf8_ignore_total: "\<exists>t. utf8_decode Ignore b = Inr t"
proof (induction b rule: length_induct)
  case (1 b)
  show ?case
  proof (cases b)
    case Nil
    then show ?thesis by simp
  next
    case (Cons c s)
    have len: "\<And>k. length (drop k s) < length b" using Cons by simp
    show ?thesis
    proof (cases "utf8_scan c s")
      case (Seq k)
      from 1 len obtain t where "utf8_decode Ignore (drop k s) = Inr t" by blast
      with Seq Cons show ?thesis by simp
    next
      case (Bad k)
      from 1 len obtain t where "utf8_decode Ignore (drop k s) = Inr t" by blast
      with Bad Cons show ?thesis by simp
    qed
  qed
qed

lemma utf8_scan_Seq:
  assumes "utf8_scan c s = Seq k"
  shows "k \<le> length s \<and> utf8_scan c (take k s @ v) = Seq k"
proof (cases s)
  case Nil
  with assms show ?thesis
    by (auto simp: utf8_scan_def Let_def split: if_splits)
next
  case s1: (Cons c2 s2)
  show ?thesis
  proof (cases s2)
    case Nil
    with s1 assms show ?thesis
      by (auto simp: utf8_scan_def Let_def split: if_splits)
  next
    case s2: (Cons c3 s3)
    show ?thesis
    proof (cases s3)
      case Nil
      with s1 s2 assms show ?thesis
        by (auto simp: utf8_scan_def Let_def split: if_splits)
    next
      case (Cons c4 s4)
      with s1 s2 assms show ?thesis
        by (auto simp: utf8_scan_def Let_def split: if_splits)
    qed
  qed
qed

lemma drop_induct [case_names Nil Cons]:
  assumes "P []" and "\<And>c s. (\<And>k. P (drop k s)) \<Longrightarrow> P (c # s)"
  shows "P b"
proof (induction b rule: length_induct)
  case (1 b)
  show ?case
  proof (cases b)
    case Nil
    with assms(1) show ?thesis by simp
  next
    case (Cons c s)
    have "\<And>k. P (drop k s)" using 1 Cons by simp
    with assms(2) Cons show ?thesis by simp
  qed
qed

lemma utf8_strict_id: "utf8_decode Strict b = Inr t \<Longrightarrow> t = b"
proof (induction b arbitrary: t rule: drop_induct)
  case Nil
  then show ?case by simp
next
  case (Cons c s)
  from Cons.prems obtain k t' where
    k: "utf8_scan c s = Seq k" "utf8_decode Strict (drop k s) = Inr t'" "t = c # take k s @ t'"
    by (auto split: scan.splits sum.splits)
  from Cons.IH [OF k(2)] k(3) show ?case by simp
qed

lemma utf8_strict_ignore: "utf8_decode Strict b = Inr t \<Longrightarrow> utf8_decode Ignore b = Inr t"
proof (induction b arbitrary: t rule: drop_induct)
  case Nil
  then show ?case by simp
next
  case (Cons c s)
  from Cons.prems obtain k t' where
    k: "utf8_scan c s = Seq k" "utf8_decode Strict (drop k s) = Inr t'" "t = c # take k s @ t'"
    by (auto split: scan.splits sum.splits)
  from Cons.IH [OF k(2)] k(1,3) show ?case by simp
qed

lemma utf8_ignore_subseq: "utf8_decode Ignore b = Inr t \<Longrightarrow> subseq t b"
proof (induction b arbitrary: t rule: drop_induct)
  case Nil
  then show ?case by simp
next
  case (Cons c s)
  show ?case
  proof (cases "utf8_scan c s")
    case (Seq k)
    with Cons.prems obtain t' where
      t': "utf8_decode Ignore (drop k s) = Inr t'" "t = c # take k s @ t'"
      by (auto split: sum.splits)
    from Cons.IH [OF t'(1)] have "subseq (take k s @ t') (take k s @ drop k s)"
      by (simp only: subseq_append')
    with t'(2) show ?thesis by simp
  next
    case (Bad k)
    with Cons.prems have "utf8_decode Ignore (drop k s) = Inr t" by simp
    from Cons.IH [OF this] have "subseq t (take k s @ drop k s)" by (rule subseq_drop_many)
    then have "subseq t s" by simp
    then have "subseq t ([c] @ s)" by (rule subseq_drop_many)
    then show ?thesis by simp
  qed
qed

lemma utf8_ignore_valid: "utf8_decode Ignore b = Inr t \<Longrightarrow> utf8_decode Strict t = Inr t"
proof (induction b arbitrary: t rule: drop_induct)
  case Nil
  then show ?case by simp
next
  case (Cons c s)
  show ?case
  proof (cases "utf8_scan c s")
    case (Seq k)
    with Cons.prems obtain t' where
      t': "utf8_decode Ignore (drop k s) = Inr t'" "t = c # take k s @ t'"
      by (auto split: sum.splits)
    from utf8_scan_Seq [OF Seq, of t'] have
      k: "k \<le> length s" "utf8_scan c (take k s @ t') = Seq k" by simp_all
    from Cons.IH [OF t'(1)] k show ?thesis unfolding t'(2) by simp
  next
    case (Bad k)
    with Cons.prems have "utf8_decode Ignore (drop k s) = Inr t" by simp
    from Cons.IH [OF this] show ?thesis .
  qed
qed

lemma utf8_ignore_valid_prefix:
  "utf8_decode Strict u = Inr u' \<Longrightarrow> utf8_decode Ignore v = Inr t \<Longrightarrow>
   utf8_decode Ignore (u @ v) = Inr (u @ t)"
proof (induction u arbitrary: u' rule: drop_induct)
  case Nil
  then show ?case by simp
next
  case (Cons c s)
  from Cons.prems(1) obtain k t' where
    k: "utf8_scan c s = Seq k" "utf8_decode Strict (drop k s) = Inr t'"
    by (auto split: scan.splits sum.splits)
  have "take k s @ drop k s @ v = s @ v" by (simp only: append_assoc [symmetric] append_take_drop_id)
  with utf8_scan_Seq [OF k(1), of "drop k s @ v"] have
    s: "k \<le> length s" "utf8_scan c (s @ v) = Seq k" by simp_all
  from Cons.IH [OF k(2) Cons.prems(2)] s show ?case by simp
qed

lemma CR_neq_LF: "CR \<noteq> LF"
  by (simp add: CR_def LF_def)

lemma replace_cr_map: "replace_cr s = map (\<lambda>c. if c = CR then LF else c) s"
  by (induction s) auto

lemma replace_cr_no_CR: "CR \<notin> set (replace_cr s)"
  using CR_neq_LF by (auto simp: replace_cr_map)

lemma replace_crlf_id: "CR \<notin> set s \<Longrightarrow> replace_crlf s = s"
  by (induction s rule: replace_crlf.induct) auto

lemma replace_cr_id: "CR \<notin> set s \<Longrightarrow> replace_cr s = s"
  by (induction s) auto

lemma replace_crlf_pair:
  "c = CR \<and> d = LF \<Longrightarrow> replace_crlf (c # d # s) = LF # replace_crlf s"
  by simp

lemma replace_crlf_no_pair:
  "\<not> (c = CR \<and> d = LF) \<Longrightarrow> replace_crlf (c # d # s) = c # replace_crlf (d # s)"
  by (cases "c = CR"; cases "d = LF"; simp)

lemma replace_crlf_append_CRLF:
  "replace_crlf (u @ CR # LF # v) = replace_crlf u @ LF # replace_crlf v"
proof (induction u rule: replace_crlf.induct)
  case (1 c d s)
  show ?case
  proof (cases "c = CR \<and> d = LF")
    case True
    have "replace_crlf ((c # d # s) @ CR # LF # v) = LF # replace_crlf (s @ CR # LF # v)"
      using replace_crlf_pair [OF True] by simp
    also have "\<dots> = LF # replace_crlf s @ LF # replace_crlf v"
      using "1.IH"(1) [OF True] by simp
    also have "\<dots> = replace_crlf (c # d # s) @ LF # replace_crlf v"
      by (simp only: replace_crlf_pair [OF True] append_Cons)
    finally show ?thesis .
  next
    case False
    have "replace_crlf ((c # d # s) @ CR # LF # v) = c # replace_crlf ((d # s) @ CR # LF # v)"
      using replace_crlf_no_pair [OF False] by simp
    also have "\<dots> = c # replace_crlf (d # s) @ LF # replace_crlf v"
      using "1.IH"(2) [OF False] by (simp only:)
    also have "\<dots> = replace_crlf (c # d # s) @ LF # replace_crlf v"
      by (simp only: replace_crlf_no_pair [OF False] append_Cons)
    finally show ?thesis .
  qed
qed (use CR_neq_LF in simp_all)

lemma replace_crlf_other:
  "filter (\<lambda>c. c \<noteq> CR \<and> c \<noteq> LF) (replace_crlf s) = filter (\<lambda>c. c \<noteq> CR \<and> c \<noteq> LF) s"
proof (induction s rule: replace_crlf.induct)
  case (1 c d s)
  show ?case
  proof (cases "c = CR \<and> d = LF")
    case True
    from "1.IH"(1) [OF True] True show ?thesis
      by (simp only: replace_crlf_pair [OF True]) simp
  next
    case False
    from "1.IH"(2) [OF False] show ?thesis
      by (simp only: replace_crlf_no_pair [OF False]) simp
  qed
qed simp_all

lemma replace_cr_other:
  "filter (\<lambda>c. c \<noteq> CR \<and> c \<noteq> LF) (replace_cr s) = filter (\<lambda>c. c \<noteq> CR \<and> c \<noteq> LF) s"
  by (induction s) auto

lemma universal_newlines_no_CR: "CR \<notin> set (universal_newlines t)"
  by (simp add: universal_newlines_def replace_cr_no_CR)

lemma universal_newlines_id: "CR \<notin> set t \<Longrightarrow> universal_newlines t = t"
  by (simp add: universal_newlines_def replace_crlf_id replace_cr_id)

lemma universal_newlines_CRLF:
  "universal_newlines (u @ CRLF @ v) = universal_newlines u @ [LF] @ universal_newlines v"
  using CR_neq_LF
  by (simp add: universal_newlines_def CRLF_def replace_crlf_append_CRLF replace_cr_map)

lemma universal_newlines_other:
  "filter (\<lambda>c. c \<noteq> CR \<and> c \<noteq> LF) (universal_newlines t) = filter (\<lambda>c. c \<noteq> CR \<and> c \<noteq> LF) t"
  by (simp add: universal_newlines_def replace_crlf_other replace_cr_other)

lemma read_text_file:
  "lookup_path es f = Some (File b) \<Longrightarrow> \<exists>t. read_text es f Ignore = Inr t"
  using utf8_ignore_total [of b] by (auto simp: read_text_def)

lemma read_text_Inr_iff: "(\<exists>t. read_text es f Ignore = Inr t) \<longleftrightarrow> is_file es f"
proof (cases "lookup_path es f")
  case None
  then show ?thesis by (simp add: read_text_def is_file_def)
next
  case (Some x)
  show ?thesis
  proof (cases x)
    case (File b)
    with Some read_text_file [of es f b] show ?thesis by (simp add: is_file_def)
  next
    case (Dir sub)
    with Some show ?thesis by (simp add: read_text_def is_file_def)
  qed
qed

lemma read_text_file_text: "is_file es f \<Longrightarrow> read_text es f Ignore = Inr (file_text es f)"
  using read_text_Inr_iff [of es f] by (auto simp: file_text_def)

lemma utf8_scan_Seq_bytes:
  assumes "utf8_scan c s = Seq k"
  shows "if k = 0 then byte c < 0x80 else 0x80 \<le> byte c \<and> list_all is_cont (take k s)"
proof (cases s)
  case Nil
  with assms show ?thesis
    by (auto simp: utf8_scan_def Let_def split: if_splits)
next
  case s1: (Cons c2 s2)
  show ?thesis
  proof (cases s2)
    case Nil
    with s1 assms show ?thesis
      by (auto simp: utf8_scan_def Let_def split: if_splits)
  next
    case s2: (Cons c3 s3)
    show ?thesis
    proof (cases s3)
      case Nil
      with s1 s2 assms show ?thesis
        by (auto simp: utf8_scan_def Let_def split: if_splits)
    next
      case (Cons c4 s4)
      with s1 s2 assms show ?thesis
        by (auto simp: utf8_scan_def Let_def split: if_splits)
    qed
  qed
qed

lemma utf8_scan_Bad:
  assumes "utf8_scan c s = Bad k"
  shows "k \<le> 2 \<and> k \<le> length s \<and> list_all is_cont (take k s)"
proof (cases s)
  case Nil
  with assms show ?thesis
    by (auto simp: utf8_scan_def Let_def split: if_splits)
next
  case s1: (Cons c2 s2)
  show ?thesis
  proof (cases s2)
    case Nil
    with s1 assms show ?thesis
      by (auto simp: utf8_scan_def Let_def split: if_splits)
  next
    case s2: (Cons c3 s3)
    show ?thesis
    proof (cases s3)
      case Nil
      with s1 s2 assms show ?thesis
        by (auto simp: utf8_scan_def Let_def split: if_splits)
    next
      case (Cons c4 s4)
      with s1 s2 assms show ?thesis
        by (auto simp: utf8_scan_def Let_def split: if_splits)
    qed
  qed
qed

lemma encodable_iff: "encodable s \<longleftrightarrow> utf8_decode Strict s = Inr s"
  using utf8_strict_id [of s] by (auto simp: encodable_def split: sum.splits)

lemma encodable_Nil: "encodable []"
  by (simp add: encodable_iff)

lemma encodable_Cons:
  "utf8_scan c s = Seq k \<Longrightarrow> encodable (c # s) \<longleftrightarrow> encodable (drop k s)"
  by (auto simp: encodable_def split: sum.splits)

lemma not_encodable_Bad: "utf8_scan c s = Bad k \<Longrightarrow> \<not> encodable (c # s)"
  by (simp add: encodable_def)

lemma encodable_append: "encodable u \<Longrightarrow> encodable v \<Longrightarrow> encodable (u @ v)"
proof (induction u rule: drop_induct)
  case Nil
  then show ?case by simp
next
  case (Cons c s)
  from Cons.prems(1) obtain k where k: "utf8_scan c s = Seq k"
    by (cases "utf8_scan c s") (auto simp: not_encodable_Bad)
  with Cons.prems(1) have d: "encodable (drop k s)" by (simp add: encodable_Cons)
  have "take k s @ drop k s @ v = s @ v"
    by (simp only: append_assoc [symmetric] append_take_drop_id)
  with utf8_scan_Seq [OF k, of "drop k s @ v"] have
    s: "k \<le> length s" "utf8_scan c (s @ v) = Seq k" by simp_all
  from Cons.IH [OF d Cons.prems(2)] s show ?case
    using encodable_Cons [OF s(2)] by simp
qed

lemma encodable_decoded: "utf8_decode Ignore b = Inr t \<Longrightarrow> encodable t"
  using utf8_ignore_valid by (simp add: encodable_iff)

lemma byte_CR_LF: "byte CR < 0x80" "byte LF < 0x80"
  by (simp_all add: byte_def CR_def LF_def)

lemma utf8_scan_ascii: "byte c < 0x80 \<Longrightarrow> utf8_scan c s = Seq 0"
  by (simp add: utf8_scan_def)

lemma encodable_ascii: "byte c < 0x80 \<Longrightarrow> encodable (c # s) \<longleftrightarrow> encodable s"
  using encodable_Cons [OF utf8_scan_ascii, of c s] by simp

lemma is_cont_not_CR: "is_cont d \<Longrightarrow> d \<noteq> CR"
  by (auto simp: is_cont_def byte_def CR_def)

lemma conts_no_CR: "list_all is_cont w \<Longrightarrow> CR \<notin> set w"
  using is_cont_not_CR by (auto simp: list_all_iff)

lemma replace_cr_append: "replace_cr (u @ v) = replace_cr u @ replace_cr v"
  by (simp add: replace_cr_map)

lemma replace_crlf_Cons_other: "c \<noteq> CR \<Longrightarrow> replace_crlf (c # r) = c # replace_crlf r"
  by (cases r) simp_all

lemma replace_crlf_append_other: "CR \<notin> set w \<Longrightarrow> replace_crlf (w @ r) = w @ replace_crlf r"
proof (induction w)
  case Nil
  then show ?case by simp
next
  case (Cons a w)
  then have "a \<noteq> CR" by auto
  from replace_crlf_Cons_other [OF this, of "w @ r"] Cons show ?case by simp
qed

lemma multibyte_shape:
  assumes "utf8_scan c s = Seq k" "k \<noteq> 0"
  shows "k \<le> length s" "CR \<notin> set (c # take k s)"
    "\<And>r. encodable (c # take k s @ r) \<longleftrightarrow> encodable r"
proof -
  from utf8_scan_Seq [OF assms(1)] show k: "k \<le> length s" by simp
  from utf8_scan_Seq_bytes [OF assms(1)] assms(2) have
    b: "0x80 \<le> byte c" "list_all is_cont (take k s)" by simp_all
  from b(1) byte_CR_LF(1) have "c \<noteq> CR" by auto
  with conts_no_CR [OF b(2)] show "CR \<notin> set (c # take k s)" by simp
  fix r
  from utf8_scan_Seq [OF assms(1), of r] have "utf8_scan c (take k s @ r) = Seq k" by simp
  from encodable_Cons [OF this] k show "encodable (c # take k s @ r) \<longleftrightarrow> encodable r" by simp
qed

lemma encodable_replace_cr: "encodable t \<Longrightarrow> encodable (replace_cr t)"
proof (induction t rule: drop_induct)
  case Nil
  then show ?case by simp
next
  case (Cons c s)
  from Cons.prems obtain k where k: "utf8_scan c s = Seq k"
    by (cases "utf8_scan c s") (auto simp: not_encodable_Bad)
  with Cons.prems have d: "encodable (drop k s)" by (simp add: encodable_Cons)
  show ?case
  proof (cases "k = 0")
    case True
    with utf8_scan_Seq_bytes [OF k] have "byte c < 0x80" by simp
    with byte_CR_LF(2) have "byte (if c = CR then LF else c) < 0x80" by simp
    from encodable_ascii [OF this] Cons.IH [of 0] d True show ?thesis by simp
  next
    case False
    note m = multibyte_shape [OF k False]
    have "replace_cr (c # s) = replace_cr ((c # take k s) @ drop k s)" by simp
    also have "\<dots> = (c # take k s) @ replace_cr (drop k s)"
      using replace_cr_id [OF m(2)] by (simp only: replace_cr_append)
    finally have "replace_cr (c # s) = c # take k s @ replace_cr (drop k s)" by simp
    with m(3) Cons.IH [OF d] show ?thesis by simp
  qed
qed

lemma encodable_replace_crlf: "encodable t \<Longrightarrow> encodable (replace_crlf t)"
proof (induction t rule: drop_induct)
  case Nil
  then show ?case by simp
next
  case (Cons c s)
  from Cons.prems obtain k where k: "utf8_scan c s = Seq k"
    by (cases "utf8_scan c s") (auto simp: not_encodable_Bad)
  with Cons.prems have d: "encodable (drop k s)" by (simp add: encodable_Cons)
  show ?case
  proof (cases "k = 0")
    case True
    with utf8_scan_Seq_bytes [OF k] have a: "byte c < 0x80" by simp
    from d True have es: "encodable s" by simp
    show ?thesis
    proof (cases "c = CR \<and> (\<exists>s'. s = LF # s')")
      case True
      then obtain s' where s': "c = CR" "s = LF # s'" by blast
      from es s' have "encodable s'" by (simp add: encodable_ascii byte_CR_LF)
      with Cons.IH [of 1] s' have "encodable (replace_crlf s')" by simp
      with s' show ?thesis by (simp add: encodable_ascii byte_CR_LF)
    next
      case False
      have "replace_crlf (c # s) = c # replace_crlf s"
      proof (cases s)
        case Nil
        then show ?thesis by simp
      next
        case (Cons d' s')
        with False have "\<not> (c = CR \<and> d' = LF)" by simp
        from replace_crlf_no_pair [OF this] Cons show ?thesis by simp
      qed
      with Cons.IH [of 0] es a show ?thesis by (simp add: encodable_ascii)
    qed
  next
    case False
    note m = multibyte_shape [OF k False]
    have "replace_crlf (c # s) = replace_crlf ((c # take k s) @ drop k s)" by simp
    also have "\<dots> = (c # take k s) @ replace_crlf (drop k s)"
      using m(2) by (rule replace_crlf_append_other)
    finally have "replace_crlf (c # s) = c # take k s @ replace_crlf (drop k s)" by simp
    with m(3) Cons.IH [OF d] show ?thesis by simp
  qed
qed

lemma encodable_universal_newlines: "encodable t \<Longrightarrow> encodable (universal_newlines t)"
  by (simp add: universal_newlines_def encodable_replace_cr encodable_replace_crlf)

lemma encodable_read_text: "read_text es f Ignore = Inr t \<Longrightarrow> encodable t"
  by (auto simp: read_text_def encodable_universal_newlines encodable_decoded
      split: option.splits node.splits sum.splits)

lemma encodable_first_char: "utf8_scan c s = Seq k \<Longrightarrow> encodable (c # take k s)"
proof -
  assume k: "utf8_scan c s = Seq k"
  from utf8_scan_Seq [OF k, of "[]"] have "k \<le> length s" "utf8_scan c (take k s) = Seq k"
    by simp_all
  from encodable_Cons [OF this(2)] this(1) show ?thesis by (simp add: encodable_Nil)
qed

lemma utf8_ignore_drop:
  assumes "\<forall>p. p \<noteq> [] \<and> prefix p (c # s) \<longrightarrow> \<not> encodable p"
  shows "\<exists>k. k \<le> 2 \<and> k \<le> length s \<and> list_all is_cont (take k s)
             \<and> utf8_decode Ignore (c # s) = utf8_decode Ignore (drop k s)"
proof (cases "utf8_scan c s")
  case (Seq k)
  have "prefix (c # take k s) (c # s)" by (simp add: take_is_prefix)
  with assms encodable_first_char [OF Seq] show ?thesis by blast
next
  case (Bad k)
  from utf8_scan_Bad [OF Bad] Bad show ?thesis by auto
qed

lemma out_write_ok: "encodable s \<Longrightarrow> out_write h out s = Inr (out @ s)"
  by (simp add: out_write_def)

lemma out_write_Inr: "out_write h out s = Inr out' \<Longrightarrow> out' = out @ s"
  by (auto simp: out_write_def split: if_splits)

lemma out_write_Inl: "out_write h out s = Inl e \<Longrightarrow> e = UnicodeEncodeError"
  by (auto simp: out_write_def split: if_splits)

lemma out_write_linesep: "out_write (h\<lparr>linesep := l\<rparr>) out s = out_write h out s"
  by (simp add: out_write_def)

lemma encodable_banner: "encodable (banner @ CRLF)"
  by code_simp

lemma encodable_blank_lines: "encodable (CRLF @ CRLF)"
  by code_simp

lemma encodable_path_line: "encodable (resolve h f) \<Longrightarrow> encodable (''# '' @ resolve h f @ CRLF)"
proof -
  assume r: "encodable (resolve h f)"
  have "encodable ''# ''" "encodable CRLF" by code_simp+
  with r show ?thesis by (simp only: encodable_append)
qed

lemma read_text_Inr_file_text: "read_text es f Ignore = Inr t \<Longrightarrow> file_text es f = t"
  by (simp add: file_text_def)

lemma write_loop_body:
  assumes "read_text es f Ignore = Inr t" "encodable (resolve h f)"
  shows "write_loop h es (f # fs) out = write_loop h es fs (out @ block h es f)"
proof -
  from encodable_read_text [OF assms(1)] have "encodable t" .
  with assms encodable_path_line [OF assms(2)] show ?thesis
    by (simp add: out_write_ok encodable_banner encodable_blank_lines block_def header_def
        read_text_Inr_file_text)
qed

lemma write_loop_files:
  "\<forall>f \<in> set fs. is_file es f \<and> encodable (resolve h f) \<Longrightarrow>
   write_loop h es fs out = (out @ concat (map (block h es) fs), None)"
proof (induction fs arbitrary: out)
  case Nil
  then show ?case by simp
next
  case (Cons f fs)
  then have "read_text es f Ignore = Inr (file_text es f)" "encodable (resolve h f)"
    by (simp_all add: read_text_file_text)
  from write_loop_body [OF this] Cons show ?case by simp
qed

lemma write_loop_Cons_None:
  assumes "write_loop h es (f # fs) out = (out', None)"
  shows "\<exists>t. read_text es f Ignore = Inr t
             \<and> write_loop h es fs (out @ block h es f) = (out', None)"
proof -
  from assms obtain o1 o2 o3 t o4 o5 where w:
    "out_write h out (banner @ CRLF) = Inr o1"
    "out_write h o1 (''# '' @ resolve h f @ CRLF) = Inr o2"
    "out_write h o2 (banner @ CRLF) = Inr o3"
    "read_text es f Ignore = Inr t"
    "out_write h o3 t = Inr o4"
    "out_write h o4 (CRLF @ CRLF) = Inr o5"
    "write_loop h es fs o5 = (out', None)"
    by (auto split: sum.splits)
  from w(1,2,3,5,6) have "o5 = out @ block h es f"
    by (auto dest!: out_write_Inr simp: block_def header_def read_text_Inr_file_text [OF w(4)])
  with w(4,7) show ?thesis by blast
qed

lemma write_loop_completed:
  "write_loop h es fs out = (out', None) \<Longrightarrow>
   out' = out @ concat (map (block h es) fs) \<and> (\<forall>f \<in> set fs. is_file es f)"
proof (induction fs arbitrary: out)
  case Nil
  then show ?case by simp
next
  case (Cons f fs)
  from write_loop_Cons_None [OF Cons.prems] obtain t where
    t: "read_text es f Ignore = Inr t"
    and r: "write_loop h es fs (out @ block h es f) = (out', None)" by blast
  from t have "is_file es f" using read_text_Inr_iff by blast
  with Cons.IH [OF r] show ?case by simp
qed

lemma write_loop_no_decode_error:
  "snd (write_loop h es fs out) \<noteq> Some UnicodeDecodeError"
proof (induction fs arbitrary: out)
  case Nil
  then show ?case by simp
next
  case (Cons f fs)
  have r: "read_text es f Ignore \<noteq> Inl UnicodeDecodeError"
  proof
    assume a: "read_text es f Ignore = Inl UnicodeDecodeError"
    then obtain b where b: "lookup_path es f = Some (File b)"
      by (auto simp: read_text_def split: option.splits node.splits)
    from read_text_file [OF b] a show False by simp
  qed
  show ?case
    using Cons r by (auto split: sum.splits dest: out_write_Inl)
qed

lemma write_loop_linesep:
  "write_loop (h\<lparr>linesep := l\<rparr>) es fs out = write_loop h es fs out"
  by (induction fs arbitrary: out) (simp_all add: out_write_linesep resolve_def split: sum.splits)

lemma banner_eq: "banner = replicate 20 (CHR ''/'')"
  by (simp add: banner_def numeral_eq_Suc)

lemma header_eq:
  "header h f = replicate 20 (CHR ''/'') @ CRLF @ ''# '' @ resolve h f @ CRLF
                @ replicate 20 (CHR ''/'') @ CRLF"
  by (simp add: header_def banner_eq)

lemma write_loop_step:
  assumes "lookup_path es f = Some (File b)" "encodable (resolve h f)"
  shows "write_loop h es (f # fs) out = write_loop h es fs (out @ block h es f)"
proof -
  from assms(1) have "is_file es f" by (simp add: is_file_def)
  from write_loop_body [OF read_text_file_text [OF this] assms(2)] show ?thesis .
qed

text \<open>
  A name that is not UTF-8: the first banner is written, the write of the path line
  raises, and the output file is left with the banner.
\<close>

lemma run_name_not_utf8:
  "run example_host bad_name_tree =
     \<lparr>tree = bad_name_tree @ [(OUTPUT, File (banner @ CRLF))],
      console = [''[+] Collecting .gd / .tscn files...''],
      err = Some UnicodeEncodeError\<rparr>"
  by code_simp

lemma matches_in_set:
  "set (matches_in pat pre es) = {pre @ [n] | n. n \<in> fst ` set es \<and> pat n}"
  by (induction pat pre es rule: matches_in.induct) auto

lemma rglob_below_shape:
  "f \<in> set (rglob_below pat pre es) \<Longrightarrow>
   \<exists>n sub rest. (n, Dir sub) \<in> set es \<and> rest \<noteq> [] \<and> f = pre @ n # rest \<and> pat (last rest)"
proof (induction pat pre es arbitrary: f rule: rglob_below.induct)
  case (1 pat pre)
  then show ?case by simp
next
  case (2 pat pre n b es)
  then show ?case by fastforce
next
  case (3 pat pre n sub es)
  from "3.prems" consider
      (a) "f \<in> set (matches_in pat (pre @ [n]) sub)"
    | (b) "f \<in> set (rglob_below pat (pre @ [n]) sub)"
    | (c) "f \<in> set (rglob_below pat pre es)"
    by auto
  then show ?case
  proof cases
    case a
    then obtain m where "f = (pre @ [n]) @ [m]" "pat m"
      by (auto simp: matches_in_set)
    then have "f = pre @ n # [m] \<and> pat (last [m])" by simp
    then show ?thesis by (metis list.discI list.set_intros(1))
  next
    case b
    from "3.IH"(1) [OF b] obtain m sub' rest where
      "rest \<noteq> []" "f = (pre @ [n]) @ m # rest" "pat (last rest)" by blast
    then have "f = pre @ n # (m # rest) \<and> pat (last (m # rest)) \<and> m # rest \<noteq> []" by simp
    then show ?thesis by (metis list.set_intros(1))
  next
    case c
    from "3.IH"(2) [OF c] show ?thesis by (metis list.set_intros(2))
  qed
qed

lemma rglob_shape: "f \<in> set (rglob pat es) \<Longrightarrow> f \<noteq> [] \<and> pat (last f)"
  unfolding rglob_def using rglob_below_shape [of f pat "[]" es]
  by (auto simp: matches_in_set)

lemma rglob_top:
  "n # rest \<in> set (rglob pat es) \<Longrightarrow>
   (rest = [] \<and> pat n \<and> n \<in> fst ` set es) \<or> (rest \<noteq> [] \<and> (\<exists>sub. (n, Dir sub) \<in> set es))"
  unfolding rglob_def using rglob_below_shape [of "n # rest" pat "[]" es]
  by (auto simp: matches_in_set)

lemma matches_in_filter:
  "\<not> pat m \<Longrightarrow> matches_in pat pre (filter (\<lambda>(n, x). n \<noteq> m) es) = matches_in pat pre es"
  by (induction pat pre es rule: matches_in.induct) auto

lemma rglob_below_filter:
  "\<forall>x. (m, x) \<in> set es \<longrightarrow> (\<exists>b. x = File b) \<Longrightarrow>
   rglob_below pat pre (filter (\<lambda>(n, x). n \<noteq> m) es) = rglob_below pat pre es"
  by (induction pat pre es rule: rglob_below.induct) auto

lemma wf_entries_distinct: "wf_entries es \<Longrightarrow> distinct (map fst es)"
  by (induction es rule: wf_entries.induct) auto

lemma unlink_output_cases:
  assumes "unlink_output es = Inr es1"
  shows "es1 = filter (\<lambda>(n, x). n \<noteq> OUTPUT) es \<and> (\<forall>sub. map_of es OUTPUT \<noteq> Some (Dir sub))"
proof (cases "map_of es OUTPUT")
  case None
  then have "\<forall>x. (OUTPUT, x) \<notin> set es"
    by (metis weak_map_of_SomeI option.distinct(1) map_of_eq_None_iff fst_conv image_eqI)
  then have "filter (\<lambda>(n, x). n \<noteq> OUTPUT) es = es"
    by (auto simp: filter_id_conv)
  with None assms show ?thesis by (simp add: unlink_output_def)
next
  case (Some x)
  with assms show ?thesis by (cases x) (auto simp: unlink_output_def)
qed

lemma unlink_output_files:
  assumes "wf_entries es" "unlink_output es = Inr es1"
  shows "\<forall>x. (OUTPUT, x) \<in> set es \<longrightarrow> (\<exists>b. x = File b)"
proof (intro allI impI)
  fix x assume "(OUTPUT, x) \<in> set es"
  with wf_entries_distinct [OF assms(1)] have "map_of es OUTPUT = Some x" by simp
  with unlink_output_cases [OF assms(2)] show "\<exists>b. x = File b" by (cases x) auto
qed

lemma rglob_unlink:
  assumes "wf_entries es" "unlink_output es = Inr es1" "\<not> pat OUTPUT"
  shows "rglob pat es1 = rglob pat es"
  using unlink_output_cases [OF assms(2)] unlink_output_files [OF assms(1,2)] assms(3)
  by (simp add: rglob_def matches_in_filter rglob_below_filter)

lemma not_rs_OUTPUT: "\<not> ends_with ''.rs'' OUTPUT"
  by (simp add: ends_with_def OUTPUT_def)

lemma not_pest_OUTPUT: "\<not> ends_with ''.pest'' OUTPUT"
  by (simp add: ends_with_def OUTPUT_def)

lemma not_cargo_OUTPUT: "OUTPUT \<noteq> ''Cargo.toml''"
  by (simp add: OUTPUT_def)

lemma selected_unlink:
  assumes "wf_entries es" "unlink_output es = Inr es1"
  shows "selected es1 = selected es"
  using rglob_unlink [OF assms, of "ends_with ''.rs''"] not_rs_OUTPUT
    rglob_unlink [OF assms, of "ends_with ''.pest''"] not_pest_OUTPUT
    rglob_unlink [OF assms, of "\<lambda>n. n = ''Cargo.toml''"] not_cargo_OUTPUT
  by (simp add: selected_def rs_files_def pest_files_def cargo_toml_def)

lemma lookup_path_hd:
  "map_of es n = map_of es' n \<Longrightarrow> lookup_path es (n # rest) = lookup_path es' (n # rest)"
  by (cases rest) auto

lemma map_of_filter_other:
  "n \<noteq> m \<Longrightarrow> map_of (filter (\<lambda>(k, x). k \<noteq> m) es) n = map_of es n"
  by (induction es) auto

lemma lookup_unlink_rglob:
  assumes "wf_entries es" "unlink_output es = Inr es1" "\<not> pat OUTPUT" "f \<in> set (rglob pat es)"
  shows "lookup_path es1 f = lookup_path es f"
proof -
  from rglob_shape [OF assms(4)] obtain n rest where f: "f = n # rest" by (cases f) auto
  have "n \<noteq> OUTPUT"
  proof
    assume n: "n = OUTPUT"
    from rglob_top [of n rest pat es] assms(4) f consider
        "rest = []" "pat n" | sub where "(n, Dir sub) \<in> set es" by auto
    then show False
    proof cases
      case 1
      with n assms(3) show False by simp
    next
      case 2
      with n unlink_output_files [OF assms(1,2)] show False by auto
    qed
  qed
  with unlink_output_cases [OF assms(2)] have "map_of es1 n = map_of es n"
    by (simp add: map_of_filter_other)
  then show ?thesis unfolding f by (rule lookup_path_hd)
qed

lemma selected_rglob:
  "f \<in> set (selected es) \<Longrightarrow>
   f \<in> set (rglob (ends_with ''.rs'') es) \<or> f \<in> set (rglob (ends_with ''.pest'') es)
   \<or> f \<in> set (rglob (\<lambda>n. n = ''Cargo.toml'') es)"
  by (auto simp: selected_def rs_files_def pest_files_def cargo_toml_def)

lemma lookup_unlink_selected:
  assumes "wf_entries es" "unlink_output es = Inr es1" "f \<in> set (selected es)"
  shows "lookup_path es1 f = lookup_path es f"
  using selected_rglob [OF assms(3)]
    lookup_unlink_rglob [OF assms(1,2), of "ends_with ''.rs''" f] not_rs_OUTPUT
    lookup_unlink_rglob [OF assms(1,2), of "ends_with ''.pest''" f] not_pest_OUTPUT
    lookup_unlink_rglob [OF assms(1,2), of "\<lambda>n. n = ''Cargo.toml''" f] not_cargo_OUTPUT
  by blast

lemma map_of_unlinked: "map_of (filter (\<lambda>(n, x). n \<noteq> m) es) m = None"
  by (induction es) auto

lemma run_Inr:
  "unlink_output es = Inr es1 \<Longrightarrow>
   run h es =
     \<lparr>tree = es1 @ [(OUTPUT, File (fst (write_loop h es1 (selected es1) [])))],
      console = (case snd (write_loop h es1 (selected es1) []) of
                   None \<Rightarrow> [''[+] Collecting .gd / .tscn files...'',
                            ''[+] Done! Output written to '' @ OUTPUT]
                 | Some e \<Rightarrow> [''[+] Collecting .gd / .tscn files...'']),
      err = snd (write_loop h es1 (selected es1) [])\<rparr>"
  by (simp add: run_def Let_def case_prod_beta split: option.splits)

lemma run_unlinked:
  assumes "unlink_output es = Inr es1"
  shows "tree (run h es) = es1 @ [(OUTPUT, File (fst (write_loop h es1 (selected es1) [])))]"
    and "err (run h es) = snd (write_loop h es1 (selected es1) [])"
    and "output_of (run h es) = Some (fst (write_loop h es1 (selected es1) []))"
proof -
  show t: "tree (run h es) = es1 @ [(OUTPUT, File (fst (write_loop h es1 (selected es1) [])))]"
    by (simp add: run_Inr [OF assms])
  show "err (run h es) = snd (write_loop h es1 (selected es1) [])"
    by (simp add: run_Inr [OF assms])
  from unlink_output_cases [OF assms] have "map_of es1 OUTPUT = None"
    by (simp add: map_of_unlinked)
  then show "output_of (run h es) = Some (fst (write_loop h es1 (selected es1) []))"
    unfolding output_of_def t by (simp add: map_add_def)
qed

lemma run_raised_unlink:
  "unlink_output es = Inl e \<Longrightarrow> run h es = \<lparr>tree = es, console = [], err = Some e\<rparr>"
  by (simp add: run_def)

lemma block_cong:
  "lookup_path es1 f = lookup_path es f \<Longrightarrow> block h es1 f = block h es f"
  by (simp add: block_def file_text_def read_text_def)

lemma is_file_cong:
  "lookup_path es1 f = lookup_path es f \<Longrightarrow> is_file es1 f = is_file es f"
  by (simp add: is_file_def)

lemma run_completed:
  assumes "wf_entries es" "err (run h es) = None"
  shows "output_of (run h es) = Some (concat (map (block h es) (selected es)))"
    and "\<forall>f \<in> set (selected es). is_file es f"
    and "\<forall>sub. map_of es OUTPUT \<noteq> Some (Dir sub)"
proof -
  from assms(2) obtain es1 where u: "unlink_output es = Inr es1"
    by (cases "unlink_output es") (auto simp: run_def)
  from unlink_output_cases [OF u] show "\<forall>sub. map_of es OUTPUT \<noteq> Some (Dir sub)" by simp
  have sel: "selected es1 = selected es" by (rule selected_unlink [OF assms(1) u])
  have look: "\<forall>f \<in> set (selected es). lookup_path es1 f = lookup_path es f"
    using lookup_unlink_selected [OF assms(1) u] by blast
  from assms(2) run_unlinked(2) [OF u, of h]
  have "snd (write_loop h es1 (selected es) []) = None" by (simp add: sel)
  then have "write_loop h es1 (selected es) []
             = (fst (write_loop h es1 (selected es) []), None)"
    by (metis prod.collapse)
  from write_loop_completed [OF this]
  have o: "fst (write_loop h es1 (selected es) []) = concat (map (block h es1) (selected es))"
    and files1: "\<forall>f \<in> set (selected es). is_file es1 f"
    by simp_all
  from files1 look show "\<forall>f \<in> set (selected es). is_file es f"
    using is_file_cong by blast
  have "map (block h es1) (selected es) = map (block h es) (selected es)"
    by (rule map_cong [OF refl]) (use look block_cong in blast)
  then have "concat (map (block h es1) (selected es)) = concat (map (block h es) (selected es))"
    by (rule arg_cong)
  with o show "output_of (run h es) = Some (concat (map (block h es) (selected es)))"
    using run_unlinked(3) [OF u, of h] by (simp add: sel)
qed

lemma unlink_output_ok:
  "\<forall>sub. map_of es OUTPUT \<noteq> Some (Dir sub) \<Longrightarrow> \<exists>es1. unlink_output es = Inr es1"
  by (auto simp: unlink_output_def split: option.splits node.splits)

lemma run_completes:
  assumes "wf_entries es" "\<forall>sub. map_of es OUTPUT \<noteq> Some (Dir sub)"
    "\<forall>f \<in> set (selected es). is_file es f \<and> encodable (resolve h f)"
  shows "err (run h es) = None"
proof -
  from unlink_output_ok [OF assms(2)] obtain es1 where u: "unlink_output es = Inr es1" by blast
  have sel: "selected es1 = selected es" by (rule selected_unlink [OF assms(1) u])
  have "\<forall>f \<in> set (selected es). is_file es1 f \<and> encodable (resolve h f)"
    using lookup_unlink_selected [OF assms(1) u] assms(3) is_file_cong by blast
  then have "snd (write_loop h es1 (selected es1) []) = None"
    by (simp add: sel write_loop_files)
  then show ?thesis by (simp add: run_unlinked(2) [OF u])
qed

lemma ends_with_last: "ends_with (c # sfx) n \<Longrightarrow> n \<noteq> [] \<and> last n = last (c # sfx)"
proof -
  assume a: "ends_with (c # sfx) n"
  then have "rev n \<noteq> []" by (auto simp: ends_with_def)
  then obtain x xs where r: "rev n = x # xs" by (cases "rev n") auto
  then have n: "n = rev xs @ [x]" by (metis rev.simps(2) rev_rev_ident)
  from a r have "x # take (length sfx) xs = rev (c # sfx)" by (simp add: ends_with_def)
  then have "x = hd (rev (c # sfx))" by (metis list.sel(1))
  then have "x = last (c # sfx)" by (simp add: hd_rev)
  with n show ?thesis by simp
qed

lemma rs_not_pest: "ends_with ''.rs'' n \<Longrightarrow> \<not> ends_with ''.pest'' n"
  using ends_with_last [of "CHR ''.''" "''rs''" n] ends_with_last [of "CHR ''.''" "''pest''" n]
  by auto

lemma rs_not_cargo: "ends_with ''.rs'' n \<Longrightarrow> n \<noteq> ''Cargo.toml''"
  using ends_with_last [of "CHR ''.''" "''rs''" n] by auto

lemma pest_not_cargo: "ends_with ''.pest'' n \<Longrightarrow> n \<noteq> ''Cargo.toml''"
  using ends_with_last [of "CHR ''.''" "''pest''" n] by auto

lemma selected_shape:
  assumes "f \<in> set (selected es)"
  shows "f \<noteq> []"
    and "(ends_with ''.rs'' (last f) \<and> ''target'' \<notin> set f)
         \<or> (ends_with ''.pest'' (last f) \<and> ''addons'' \<notin> set f)
         \<or> (last f = ''Cargo.toml'' \<and> ''addons'' \<notin> set f)"
  using assms rglob_shape [of f "ends_with ''.rs''" es] rglob_shape [of f "ends_with ''.pest''" es]
    rglob_shape [of f "\<lambda>n. n = ''Cargo.toml''" es]
  by (auto simp: selected_def rs_files_def pest_files_def cargo_toml_def)

lemma run_linesep: "run (h\<lparr>linesep := l\<rparr>) es = run h es"
  by (simp add: run_def write_loop_linesep split: sum.splits)

lemma filter_unlinked:
  "filter (\<lambda>(n, x). n \<noteq> m) (filter (\<lambda>(n, x). n \<noteq> m) es @ [(m, y)]) = filter (\<lambda>(n, x). n \<noteq> m) es"
  by (induction es) auto

lemma unlink_output_tree:
  assumes "unlink_output es = Inr es1"
  shows "unlink_output (es1 @ [(OUTPUT, File out)]) = Inr es1"
proof -
  from unlink_output_cases [OF assms] have es1: "es1 = filter (\<lambda>(n, x). n \<noteq> OUTPUT) es" by simp
  then have "map_of (es1 @ [(OUTPUT, File out)]) OUTPUT = Some (File out)"
    by (simp add: map_of_unlinked map_add_def)
  then show ?thesis
    unfolding unlink_output_def by (simp add: es1 filter_unlinked)
qed

lemma run_twice: "run h (tree (run h es)) = run h es"
proof (cases "unlink_output es")
  case (Inl e)
  then show ?thesis by (simp add: run_raised_unlink)
next
  case (Inr es1)
  have "unlink_output (tree (run h es)) = Inr es1"
    unfolding run_unlinked(1) [OF Inr] by (rule unlink_output_tree [OF Inr])
  then show ?thesis by (simp only: run_Inr [OF Inr] run_Inr)
qed

lemma unlink_output_filter:
  assumes "map_of es OUTPUT = Some (File old)"
  shows "unlink_output es = Inr (filter (\<lambda>(n, x). n \<noteq> OUTPUT) es)"
    and "unlink_output (filter (\<lambda>(n, x). n \<noteq> OUTPUT) es) = Inr (filter (\<lambda>(n, x). n \<noteq> OUTPUT) es)"
  using assms by (simp_all add: unlink_output_def map_of_unlinked)

lemma run_forgets:
  assumes "map_of es OUTPUT = Some (File old)"
  shows "run h es = run h (filter (\<lambda>(n, x). n \<noteq> OUTPUT) es)"
  by (simp only: run_Inr [OF unlink_output_filter(1) [OF assms]]
        run_Inr [OF unlink_output_filter(2) [OF assms]])

lemma run_frame:
  "filter (\<lambda>(n, x). n \<noteq> OUTPUT) (tree (run h es)) = filter (\<lambda>(n, x). n \<noteq> OUTPUT) es"
proof (cases "unlink_output es")
  case (Inl e)
  then show ?thesis by (simp add: run_raised_unlink)
next
  case (Inr es1)
  from unlink_output_cases [OF Inr] have "es1 = filter (\<lambda>(n, x). n \<noteq> OUTPUT) es" by simp
  then show ?thesis by (simp add: run_unlinked(1) [OF Inr])
qed

lemma resolve_absolute: "f \<noteq> [] \<Longrightarrow> \<exists>rest. resolve h f = CHR ''/'' # rest"
proof -
  assume "f \<noteq> []"
  then obtain p ps where "cwd h @ f = p # ps" by (cases "cwd h @ f") auto
  then show ?thesis by (simp add: resolve_def)
qed

lemma block_eq:
  "block h es f =
     replicate 20 (CHR ''/'') @ [CHR 0x0D, CHR 0x0A] @ ''# '' @ resolve h f @ [CHR 0x0D, CHR 0x0A]
     @ replicate 20 (CHR ''/'') @ [CHR 0x0D, CHR 0x0A] @ file_text es f
     @ [CHR 0x0D, CHR 0x0A, CHR 0x0D, CHR 0x0A]"
  by (simp add: block_def header_eq CRLF_def CR_def LF_def)

lemma map_of_tree_other:
  assumes "n \<noteq> OUTPUT"
  shows "map_of (tree (run h es)) n = map_of es n"
proof (cases "unlink_output es")
  case (Inl e)
  then show ?thesis by (simp add: run_raised_unlink)
next
  case (Inr es1)
  from unlink_output_cases [OF Inr] have "es1 = filter (\<lambda>(n, x). n \<noteq> OUTPUT) es" by simp
  with assms show ?thesis
    by (simp add: run_unlinked(1) [OF Inr] map_add_def map_of_filter_other split: option.splits)
qed

lemma rglob_below_Dir_subset:
  "(n, Dir sub) \<in> set es \<Longrightarrow>
   set (matches_in pat (pre @ [n]) sub) \<union> set (rglob_below pat (pre @ [n]) sub)
   \<subseteq> set (rglob_below pat pre es)"
  by (induction pat pre es rule: rglob_below.induct) auto

lemma lookup_found_by_glob:
  "lookup_path es f = Some x \<Longrightarrow> pat (last f) \<Longrightarrow>
   pre @ f \<in> set (matches_in pat pre es) \<union> set (rglob_below pat pre es)"
proof (induction f arbitrary: es pre)
  case Nil
  then show ?case by simp
next
  case (Cons n rest)
  show ?case
  proof (cases rest)
    case Nil
    with Cons.prems have "map_of es n = Some x" "pat n" by simp_all
    then have "n \<in> fst ` set es" by (metis domI dom_map_of_conv_image_fst)
    with \<open>pat n\<close> Nil show ?thesis by (auto simp: matches_in_set)
  next
    case (Cons m rest')
    with Cons.prems obtain sub where
      sub: "map_of es n = Some (Dir sub)" and l: "lookup_path sub rest = Some x"
      by (auto split: option.splits node.splits)
    from Cons Cons.prems have "pat (last rest)" by simp
    from Cons.IH [OF l this, of "pre @ [n]"]
    have "pre @ n # rest \<in> set (matches_in pat (pre @ [n]) sub)
            \<union> set (rglob_below pat (pre @ [n]) sub)" by simp
    moreover from sub have "(n, Dir sub) \<in> set es" by (rule map_of_SomeD)
    ultimately show ?thesis using rglob_below_Dir_subset by blast
  qed
qed

lemma rglob_complete:
  "lookup_path es f = Some x \<Longrightarrow> pat (last f) \<Longrightarrow> f \<in> set (rglob pat es)"
  using lookup_found_by_glob [of es f x pat "[]"] by (simp add: rglob_def)

lemma lookup_path_Cons_other:
  assumes "n \<notin> fst ` set es" "lookup_path es g = Some x"
  shows "lookup_path ((n, y) # es) g = Some x"
proof (cases g)
  case Nil
  with assms show ?thesis by simp
next
  case (Cons m rest)
  have "m \<noteq> n"
  proof
    assume "m = n"
    with assms(1) have "map_of es m = None" by (simp add: map_of_eq_None_iff)
    with assms(2) Cons show False by (cases rest) auto
  qed
  then have "map_of ((n, y) # es) m = map_of es m" by simp
  from lookup_path_hd [OF this] assms(2) Cons show ?thesis by simp
qed

lemma matches_in_found:
  "f \<in> set (matches_in pat pre es) \<Longrightarrow> \<exists>n x. f = pre @ [n] \<and> map_of es n = Some x"
proof -
  assume "f \<in> set (matches_in pat pre es)"
  then obtain n where "f = pre @ [n]" "n \<in> fst ` set es" by (auto simp: matches_in_set)
  moreover then obtain x where "map_of es n = Some x"
    by (metis map_of_eq_None_iff not_Some_eq)
  ultimately show ?thesis by blast
qed

lemma rglob_below_found:
  "wf_entries es \<Longrightarrow> f \<in> set (rglob_below pat pre es) \<Longrightarrow>
   \<exists>g x. f = pre @ g \<and> lookup_path es g = Some x"
proof (induction pat pre es arbitrary: f rule: rglob_below.induct)
  case (1 pat pre)
  then show ?case by simp
next
  case (2 pat pre n b es)
  from "2.prems" have wf: "n \<notin> fst ` set es" "wf_entries es" by simp_all
  from "2.prems" have "f \<in> set (rglob_below pat pre es)" by simp
  from "2.IH" [OF wf(2) this] obtain g x where "f = pre @ g" "lookup_path es g = Some x"
    by blast
  with wf(1) show ?case using lookup_path_Cons_other by blast
next
  case (3 pat pre n sub es)
  from "3.prems" have wf: "n \<notin> fst ` set es" "wf_entries sub" "wf_entries es" by simp_all
  from "3.prems" consider
      (a) "f \<in> set (matches_in pat (pre @ [n]) sub)"
    | (b) "f \<in> set (rglob_below pat (pre @ [n]) sub)"
    | (c) "f \<in> set (rglob_below pat pre es)"
    by auto
  then show ?case
  proof cases
    case a
    from matches_in_found [OF a] obtain m x where
      "f = (pre @ [n]) @ [m]" "map_of sub m = Some x" by blast
    then have "f = pre @ [n, m] \<and> lookup_path ((n, Dir sub) # es) [n, m] = Some x" by simp
    then show ?thesis by blast
  next
    case b
    from "3.IH"(1) [OF wf(2) b] obtain g x where
      g: "f = (pre @ [n]) @ g" "lookup_path sub g = Some x" by blast
    then obtain m rest where "g = m # rest" by (cases g) auto
    with g have "f = pre @ (n # g) \<and> lookup_path ((n, Dir sub) # es) (n # g) = Some x" by simp
    then show ?thesis by blast
  next
    case c
    from "3.IH"(2) [OF wf(3) c] obtain g x where "f = pre @ g" "lookup_path es g = Some x"
      by blast
    with wf(1) show ?thesis using lookup_path_Cons_other by blast
  qed
qed

lemma rglob_sound:
  assumes "wf_entries es" "f \<in> set (rglob pat es)"
  shows "\<exists>x. lookup_path es f = Some x"
proof -
  from assms(2) consider "f \<in> set (matches_in pat [] es)" | "f \<in> set (rglob_below pat [] es)"
    by (auto simp: rglob_def)
  then show ?thesis
  proof cases
    case 1
    from matches_in_found [OF 1] show ?thesis by auto
  next
    case 2
    from rglob_below_found [OF assms(1) 2] show ?thesis by auto
  qed
qed

lemma distinct_matches_in:
  "distinct (map fst es) \<Longrightarrow> distinct (matches_in pat pre es)"
  by (induction pat pre es rule: matches_in.induct) (auto simp: matches_in_set)

lemma distinct_rglob_below:
  "wf_entries es \<Longrightarrow> distinct (rglob_below pat pre es)"
proof (induction pat pre es rule: rglob_below.induct)
  case (1 pat pre)
  then show ?case by simp
next
  case (2 pat pre n b es)
  then show ?case by simp
next
  case (3 pat pre n sub es)
  from "3.prems" have wf: "n \<notin> fst ` set es" "wf_entries sub" "wf_entries es" by simp_all
  let ?A = "matches_in pat (pre @ [n]) sub"
  let ?B = "rglob_below pat (pre @ [n]) sub"
  let ?C = "rglob_below pat pre es"
  have dA: "distinct ?A" using wf(2) by (simp add: distinct_matches_in wf_entries_distinct)
  have dB: "distinct ?B" using "3.IH"(1) wf(2) by simp
  have dC: "distinct ?C" using "3.IH"(2) wf(3) by simp
  have AB: "set ?A \<inter> set ?B = {}"
  proof (rule ccontr)
    assume "set ?A \<inter> set ?B \<noteq> {}"
    then obtain f where a: "f \<in> set ?A" and b: "f \<in> set ?B" by blast
    from a have "length f = length pre + 2" by (auto simp: matches_in_set)
    moreover from rglob_below_shape [OF b] have "length f > length pre + 2"
      by (auto simp: neq_Nil_conv)
    ultimately show False by simp
  qed
  have C: "\<And>f. f \<in> set ?C \<Longrightarrow> f \<notin> set ?A \<and> f \<notin> set ?B"
  proof -
    fix f assume c: "f \<in> set ?C"
    from rglob_below_shape [OF c] obtain k sub' rest where
      k: "(k, Dir sub') \<in> set es" "f = pre @ k # rest" by blast
    from k(1) wf(1) have kn: "k \<noteq> n" by force
    have "f \<notin> set ?A"
    proof
      assume "f \<in> set ?A"
      then obtain m where "f = (pre @ [n]) @ [m]" by (auto simp: matches_in_set)
      with k(2) kn show False by simp
    qed
    moreover have "f \<notin> set ?B"
    proof
      assume "f \<in> set ?B"
      from rglob_below_shape [OF this] obtain m rest' where "f = (pre @ [n]) @ m # rest'"
        by blast
      with k(2) kn show False by simp
    qed
    ultimately show "f \<notin> set ?A \<and> f \<notin> set ?B" by simp
  qed
  from dA dB dC AB C show ?case by (auto simp: disjoint_iff)
qed

lemma distinct_rglob: "wf_entries es \<Longrightarrow> distinct (rglob pat es)"
proof -
  assume wf: "wf_entries es"
  have "set (matches_in pat [] es) \<inter> set (rglob_below pat [] es) = {}"
  proof (rule ccontr)
    assume "set (matches_in pat [] es) \<inter> set (rglob_below pat [] es) \<noteq> {}"
    then obtain f where a: "f \<in> set (matches_in pat [] es)"
      and b: "f \<in> set (rglob_below pat [] es)" by blast
    from a have "length f = 1" by (auto simp: matches_in_set)
    moreover from rglob_below_shape [OF b] have "length f > 1" by (auto simp: neq_Nil_conv)
    ultimately show False by simp
  qed
  with wf show ?thesis
    by (simp add: rglob_def distinct_matches_in wf_entries_distinct distinct_rglob_below)
qed

lemma distinct_selected: "wf_entries es \<Longrightarrow> distinct (selected es)"
proof -
  assume wf: "wf_entries es"
  have rs: "\<And>f. f \<in> set (rs_files es) \<Longrightarrow> ends_with ''.rs'' (last f)"
    using rglob_shape by (fastforce simp: rs_files_def)
  have pest: "\<And>f. f \<in> set (pest_files es) \<Longrightarrow> ends_with ''.pest'' (last f)"
    using rglob_shape by (fastforce simp: pest_files_def)
  have cargo: "\<And>f. f \<in> set (cargo_toml es) \<Longrightarrow> last f = ''Cargo.toml''"
    using rglob_shape [of _ "\<lambda>n. n = ''Cargo.toml''" es] by (auto simp: cargo_toml_def)
  have "set (rs_files es) \<inter> set (pest_files es) = {}"
    using rs pest rs_not_pest by blast
  moreover have "set (rs_files es) \<inter> set (cargo_toml es) = {}"
    using rs cargo rs_not_cargo by blast
  moreover have "set (pest_files es) \<inter> set (cargo_toml es) = {}"
    using pest cargo pest_not_cargo by blast
  moreover have "distinct (rs_files es)" "distinct (pest_files es)" "distinct (cargo_toml es)"
    using wf by (simp_all add: rs_files_def pest_files_def cargo_toml_def distinct_rglob)
  ultimately show ?thesis by (auto simp: selected_def)
qed

lemma is_file_lookup: "is_file es f \<longleftrightarrow> (\<exists>b. lookup_path es f = Some (File b))"
  by (auto simp: is_file_def split: option.splits node.splits)

lemma block_file:
  assumes "lookup_path es f = Some (File b)"
  shows "\<exists>t. utf8_decode Ignore b = Inr t
             \<and> block h es f = header h f @ universal_newlines t @ CRLF @ CRLF"
proof -
  from utf8_ignore_total obtain t where "utf8_decode Ignore b = Inr t" by blast
  with assms show ?thesis by (simp add: block_def file_text_def read_text_def)
qed

lemma selected_complete:
  assumes "lookup_path es f = Some x"
    and "(ends_with ''.rs'' (last f) \<and> ''target'' \<notin> set f)
         \<or> (ends_with ''.pest'' (last f) \<and> ''addons'' \<notin> set f)
         \<or> (last f = ''Cargo.toml'' \<and> ''addons'' \<notin> set f)"
  shows "f \<in> set (selected es)"
  using assms(2) rglob_complete [OF assms(1), of "ends_with ''.rs''"]
    rglob_complete [OF assms(1), of "ends_with ''.pest''"]
    rglob_complete [OF assms(1), of "\<lambda>n. n = ''Cargo.toml''"]
  by (auto simp: selected_def rs_files_def pest_files_def cargo_toml_def)

lemma selected_sound:
  assumes "wf_entries es" "f \<in> set (selected es)"
  shows "\<exists>x. lookup_path es f = Some x"
  using selected_rglob [OF assms(2)] rglob_sound [OF assms(1)] by blast

lemma group_iff:
  assumes "wf_entries es" "\<forall>f \<in> set (selected es). is_file es f"
    and "set (filter keep (rglob pat es)) \<subseteq> set (selected es)"
  shows "f \<in> set (filter keep (rglob pat es)) \<longleftrightarrow> is_file es f \<and> pat (last f) \<and> keep f"
proof
  assume a: "f \<in> set (filter keep (rglob pat es))"
  with assms(2,3) have "is_file es f" by blast
  moreover from a rglob_shape [of f pat es] have "pat (last f)" "keep f" by simp_all
  ultimately show "is_file es f \<and> pat (last f) \<and> keep f" by simp
next
  assume a: "is_file es f \<and> pat (last f) \<and> keep f"
  then obtain b where "lookup_path es f = Some (File b)" by (auto simp: is_file_lookup)
  from rglob_complete [OF this, of pat] a show "f \<in> set (filter keep (rglob pat es))" by simp
qed

lemma run_no_decode_error: "err (run h es) \<noteq> Some UnicodeDecodeError"
proof (cases "unlink_output es")
  case (Inl e)
  then have "e = IsADirectoryError"
    by (auto simp: unlink_output_def split: option.splits node.splits)
  with Inl show ?thesis by (simp add: run_raised_unlink)
next
  case (Inr es1)
  then show ?thesis by (simp add: run_unlinked(2) write_loop_no_decode_error)
qed

lemma utf8_scan_invalid_start:
  "(0x80 \<le> byte x \<and> byte x < 0xC2) \<or> 0xF5 \<le> byte x \<Longrightarrow> utf8_scan x v = Bad 0"
  by (auto simp: utf8_scan_def)

lemma utf8_ignore_between:
  assumes "utf8_decode Strict u = Inr u'" "utf8_decode Strict v = Inr v'"
    and "(0x80 \<le> byte x \<and> byte x < 0xC2) \<or> 0xF5 \<le> byte x"
  shows "utf8_decode Ignore (u @ x # v) = Inr (u @ v)"
proof -
  from utf8_strict_id [OF assms(2)] utf8_strict_ignore [OF assms(2)]
  have "utf8_decode Ignore v = Inr v" by simp
  with utf8_scan_invalid_start [OF assms(3), of v]
  have "utf8_decode Ignore (x # v) = Inr v" by simp
  from utf8_ignore_valid_prefix [OF assms(1) this] show ?thesis .
qed

section \<open>The claims\<close>

text \<open>
  C1, as amended. In a well-formed tree, a regular file whose path meets one of the
  three criteria is selected exactly once: the output of a completed run is the
  blocks of the paths selected before it, then its own block, then the blocks of the
  paths selected after it, and it is among neither. Its block holds the text that the
  text-mode read returns: the text decoded from its bytes with every CR LF and every
  other CR replaced by LF.
\<close>

theorem every_match_once:
  assumes "wf_entries es" and "err (run h es) = None"
    and "lookup_path es f = Some (File b)"
    and "(ends_with ''.rs'' (last f) \<and> ''target'' \<notin> set f)
         \<or> (ends_with ''.pest'' (last f) \<and> ''addons'' \<notin> set f)
         \<or> (last f = ''Cargo.toml'' \<and> ''addons'' \<notin> set f)"
  shows "\<exists>before after t.
           selected es = before @ f # after \<and> f \<notin> set before \<and> f \<notin> set after
           \<and> output_of (run h es) =
               Some (concat (map (block h es) before) @ block h es f
                     @ concat (map (block h es) after))
           \<and> utf8_decode Ignore b = Inr t
           \<and> block h es f = header h f @ universal_newlines t @ CRLF @ CRLF"
proof -
  from selected_complete [OF assms(3,4)] have "f \<in> set (selected es)" .
  then obtain before after where s: "selected es = before @ f # after"
    by (meson split_list)
  from distinct_selected [OF assms(1)] s have d: "f \<notin> set before" "f \<notin> set after"
    by simp_all
  from run_completed(1) [OF assms(1,2)] s
  have o: "output_of (run h es) =
             Some (concat (map (block h es) before) @ block h es f
                   @ concat (map (block h es) after))"
    by simp
  from block_file [OF assms(3)] obtain t where
    "utf8_decode Ignore b = Inr t"
    "block h es f = header h f @ universal_newlines t @ CRLF @ CRLF" by blast
  with s d o show ?thesis by blast
qed

theorem every_match_once_witness:
  "selected example_tree = [[''src'', ''main.rs'']] @ [''grammar'', ''expr.pest''] # [[''Cargo.toml'']]
   \<and> output_of (run example_host example_tree) =
       Some (concat (map (block example_host example_tree) [[''src'', ''main.rs'']])
             @ block example_host example_tree [''grammar'', ''expr.pest'']
             @ concat (map (block example_host example_tree) [[''Cargo.toml'']]))
   \<and> block example_host example_tree [''grammar'', ''expr.pest'']
       = header example_host [''grammar'', ''expr.pest''] @ ''expr = { ... }'' @ CRLF @ CRLF"
proof -
  have w: "wf_entries example_tree" by (simp add: example_tree_def)
  have e: "err (run example_host example_tree) = None" by code_simp
  have l: "lookup_path example_tree [''grammar'', ''expr.pest''] = Some (File ''expr = { ... }'')"
    by (simp add: example_tree_def)
  have c: "(ends_with ''.rs'' (last [''grammar'', ''expr.pest''])
              \<and> ''target'' \<notin> set [''grammar'', ''expr.pest''])
         \<or> (ends_with ''.pest'' (last [''grammar'', ''expr.pest''])
              \<and> ''addons'' \<notin> set [''grammar'', ''expr.pest''])
         \<or> (last [''grammar'', ''expr.pest''] = ''Cargo.toml''
              \<and> ''addons'' \<notin> set [''grammar'', ''expr.pest''])"
    by (simp add: ends_with_def)
  have s: "selected example_tree
           = [[''src'', ''main.rs''], [''grammar'', ''expr.pest''], [''Cargo.toml'']]"
    by code_simp
  have d: "utf8_decode Ignore ''expr = { ... }'' = Inr ''expr = { ... }''" by code_simp
  have u: "universal_newlines ''expr = { ... }'' = ''expr = { ... }''" by code_simp
  from every_match_once [OF w e l c] obtain before after t where
    x: "selected example_tree = before @ [''grammar'', ''expr.pest''] # after"
      "[''grammar'', ''expr.pest''] \<notin> set before"
      "output_of (run example_host example_tree) =
         Some (concat (map (block example_host example_tree) before)
               @ block example_host example_tree [''grammar'', ''expr.pest'']
               @ concat (map (block example_host example_tree) after))"
      "utf8_decode Ignore ''expr = { ... }'' = Inr t"
      "block example_host example_tree [''grammar'', ''expr.pest'']
         = header example_host [''grammar'', ''expr.pest''] @ universal_newlines t @ CRLF @ CRLF"
    by blast
  from x(1,2) s have "before = [[''src'', ''main.rs'']] \<and> after = [[''Cargo.toml'']]"
    by (cases before; cases "tl before") auto
  moreover from x(4) d have "t = ''expr = { ... }''" by simp
  ultimately show ?thesis using x(3,5) s u by simp
qed

text \<open>
  C1 as stated fails on a file with a CR LF line end that meets the first criterion:
  the run completes, and the decoded text x, CR, LF, y occurs nowhere in the output.
\<close>

theorem decoded_text_absent_counterexample:
  "lookup_path crlf_tree [''a.rs''] = Some (File [CHR ''x'', CHR 0x0D, CHR 0x0A, CHR ''y''])
   \<and> ends_with ''.rs'' (last [''a.rs'']) \<and> ''target'' \<notin> set [''a.rs'']
   \<and> utf8_decode Ignore [CHR ''x'', CHR 0x0D, CHR 0x0A, CHR ''y'']
       = Inr [CHR ''x'', CHR 0x0D, CHR 0x0A, CHR ''y'']
   \<and> err (run example_host crlf_tree) = None
   \<and> output_of (run example_host crlf_tree)
       = Some (''////////////////////'' @ [CHR 0x0D, CHR 0x0A] @ ''# /home/u/a.rs''
               @ [CHR 0x0D, CHR 0x0A] @ ''////////////////////'' @ [CHR 0x0D, CHR 0x0A]
               @ [CHR ''x'', CHR 0x0A, CHR ''y''] @ [CHR 0x0D, CHR 0x0A, CHR 0x0D, CHR 0x0A])
   \<and> \<not> sublist [CHR ''x'', CHR 0x0D, CHR 0x0A, CHR ''y'']
         (''////////////////////'' @ [CHR 0x0D, CHR 0x0A] @ ''# /home/u/a.rs''
          @ [CHR 0x0D, CHR 0x0A] @ ''////////////////////'' @ [CHR 0x0D, CHR 0x0A]
          @ [CHR ''x'', CHR 0x0A, CHR ''y''] @ [CHR 0x0D, CHR 0x0A, CHR 0x0D, CHR 0x0A])"
  by code_simp

text \<open>
  C2. The output of a completed run is the blocks of the \<^verbatim>\<open>.rs\<close> group, then the blocks
  of the \<^verbatim>\<open>.pest\<close> group, then the blocks of the \<^verbatim>\<open>Cargo.toml\<close> group, and each group
  holds exactly the files of the tree that meet its criterion.
\<close>

theorem groups_in_order:
  assumes "wf_entries es" and "err (run h es) = None"
  shows "output_of (run h es) =
           Some (concat (map (block h es) (rs_files es))
                 @ concat (map (block h es) (pest_files es))
                 @ concat (map (block h es) (cargo_toml es)))
         \<and> (\<forall>f. f \<in> set (rs_files es) \<longleftrightarrow>
                 is_file es f \<and> ends_with ''.rs'' (last f) \<and> ''target'' \<notin> set f)
         \<and> (\<forall>f. f \<in> set (pest_files es) \<longleftrightarrow>
                 is_file es f \<and> ends_with ''.pest'' (last f) \<and> ''addons'' \<notin> set f)
         \<and> (\<forall>f. f \<in> set (cargo_toml es) \<longleftrightarrow>
                 is_file es f \<and> last f = ''Cargo.toml'' \<and> ''addons'' \<notin> set f)"
proof (intro conjI allI)
  from run_completed(1) [OF assms]
  show "output_of (run h es) =
           Some (concat (map (block h es) (rs_files es))
                 @ concat (map (block h es) (pest_files es))
                 @ concat (map (block h es) (cargo_toml es)))"
    by (simp add: selected_def)
next
  fix f
  note files = run_completed(2) [OF assms]
  show "f \<in> set (rs_files es) \<longleftrightarrow>
          is_file es f \<and> ends_with ''.rs'' (last f) \<and> ''target'' \<notin> set f"
    unfolding rs_files_def
    by (rule group_iff [OF assms(1) files]) (auto simp: selected_def rs_files_def)
  show "f \<in> set (pest_files es) \<longleftrightarrow>
          is_file es f \<and> ends_with ''.pest'' (last f) \<and> ''addons'' \<notin> set f"
    unfolding pest_files_def
    by (rule group_iff [OF assms(1) files]) (auto simp: selected_def pest_files_def)
  show "f \<in> set (cargo_toml es) \<longleftrightarrow>
          is_file es f \<and> last f = ''Cargo.toml'' \<and> ''addons'' \<notin> set f"
    unfolding cargo_toml_def
    by (rule group_iff [OF assms(1) files]) (auto simp: selected_def cargo_toml_def)
qed

theorem groups_in_order_witness:
  "rs_files example_tree = [[''src'', ''main.rs'']]
   \<and> pest_files example_tree = [[''grammar'', ''expr.pest'']]
   \<and> cargo_toml example_tree = [[''Cargo.toml'']]
   \<and> output_of (run example_host example_tree) =
       Some (block example_host example_tree [''src'', ''main.rs'']
             @ block example_host example_tree [''grammar'', ''expr.pest'']
             @ block example_host example_tree [''Cargo.toml''])"
proof -
  have w: "wf_entries example_tree" by (simp add: example_tree_def)
  have e: "err (run example_host example_tree) = None" by code_simp
  have s: "rs_files example_tree = [[''src'', ''main.rs'']]"
    "pest_files example_tree = [[''grammar'', ''expr.pest'']]"
    "cargo_toml example_tree = [[''Cargo.toml'']]"
    by code_simp+
  from groups_in_order [OF w e] have
    "output_of (run example_host example_tree) =
       Some (concat (map (block example_host example_tree) (rs_files example_tree))
             @ concat (map (block example_host example_tree) (pest_files example_tree))
             @ concat (map (block example_host example_tree) (cargo_toml example_tree)))"
    by (elim conjE)
  with s show ?thesis by simp
qed

text \<open>
  C3. A path with a directory component \<^verbatim>\<open>target\<close> and a name ending in \<^verbatim>\<open>.rs\<close>, or
  with a directory component \<^verbatim>\<open>addons\<close> and a name that ends in \<^verbatim>\<open>.pest\<close> or is
  \<^verbatim>\<open>Cargo.toml\<close>, is never among the paths the loop runs over, whatever the tree; and
  the output of a completed run consists of the blocks of those paths only.
\<close>

theorem excluded_never_selected:
  assumes "(''target'' \<in> set (butlast f) \<and> ends_with ''.rs'' (last f))
           \<or> (''addons'' \<in> set (butlast f)
               \<and> (ends_with ''.pest'' (last f) \<or> last f = ''Cargo.toml''))"
  shows "f \<notin> set (selected es)
         \<and> (wf_entries es \<and> err (run h es) = None \<longrightarrow>
              output_of (run h es) = Some (concat (map (block h es) (selected es))))"
proof
  show "f \<notin> set (selected es)"
  proof
    assume sel: "f \<in> set (selected es)"
    from assms consider
        (rs) "''target'' \<in> set (butlast f)" "ends_with ''.rs'' (last f)"
      | (other) "''addons'' \<in> set (butlast f)"
          "ends_with ''.pest'' (last f) \<or> last f = ''Cargo.toml''"
      by blast
    then show False
    proof cases
      case rs
      from rs(1) have "''target'' \<in> set f" by (rule in_set_butlastD)
      with selected_shape(2) [OF sel] rs(2) rs_not_pest rs_not_cargo show False by blast
    next
      case other
      from other(1) have "''addons'' \<in> set f" by (rule in_set_butlastD)
      with selected_shape(2) [OF sel] other(2) rs_not_pest rs_not_cargo show False by blast
    qed
  qed
  show "wf_entries es \<and> err (run h es) = None \<longrightarrow>
        output_of (run h es) = Some (concat (map (block h es) (selected es)))"
    using run_completed(1) by blast
qed

theorem excluded_never_selected_witness:
  "lookup_path excluded_tree [''target'', ''gen.rs''] = Some (File ''fn g() {}'')
   \<and> [''target'', ''gen.rs''] \<notin> set (selected excluded_tree)
   \<and> lookup_path excluded_tree [''addons'', ''Cargo.toml''] = Some (File ''[lib]'')
   \<and> [''addons'', ''Cargo.toml''] \<notin> set (selected excluded_tree)
   \<and> output_of (run example_host excluded_tree)
       = Some (concat (map (block example_host excluded_tree) (selected excluded_tree)))"
proof -
  have a: "''target'' \<in> set (butlast [''target'', ''gen.rs''])
           \<and> ends_with ''.rs'' (last [''target'', ''gen.rs''])"
    by (simp add: ends_with_def)
  have b: "''addons'' \<in> set (butlast [''addons'', ''Cargo.toml''])
           \<and> (ends_with ''.pest'' (last [''addons'', ''Cargo.toml''])
               \<or> last [''addons'', ''Cargo.toml''] = ''Cargo.toml'')"
    by simp
  have w: "wf_entries excluded_tree" by (simp add: excluded_tree_def)
  have e: "err (run example_host excluded_tree) = None" by code_simp
  have l: "lookup_path excluded_tree [''target'', ''gen.rs''] = Some (File ''fn g() {}'')"
    "lookup_path excluded_tree [''addons'', ''Cargo.toml''] = Some (File ''[lib]'')"
    by (simp_all add: excluded_tree_def)
  from excluded_never_selected [of "[''target'', ''gen.rs'']" excluded_tree example_host] a
    excluded_never_selected [of "[''addons'', ''Cargo.toml'']" excluded_tree example_host] b w e l
  show ?thesis by blast
qed

text \<open>
  C4. In the output of a completed run every block is: twenty slashes, CR LF, the
  two characters \<^verbatim>\<open># \<close> and the absolute path (it starts with a slash), CR LF, twenty
  slashes, CR LF, the text read from the file, CR LF CR LF. The terminators are these
  two bytes on every host: a run does not depend on the host's line separator.
\<close>

theorem block_format:
  assumes "wf_entries es" and "err (run h es) = None"
  shows "output_of (run h es) =
           Some (concat (map (\<lambda>f.
             replicate 20 (CHR ''/'') @ [CHR 0x0D, CHR 0x0A]
             @ ''# '' @ resolve h f @ [CHR 0x0D, CHR 0x0A]
             @ replicate 20 (CHR ''/'') @ [CHR 0x0D, CHR 0x0A]
             @ file_text es f
             @ [CHR 0x0D, CHR 0x0A, CHR 0x0D, CHR 0x0A]) (selected es)))
         \<and> (\<forall>f \<in> set (selected es).
               read_text es f Ignore = Inr (file_text es f)
               \<and> (\<exists>rest. resolve h f = CHR ''/'' # rest))
         \<and> (\<forall>l. run (h\<lparr>linesep := l\<rparr>) es = run h es)"
proof (intro conjI ballI allI)
  have "block h es = (\<lambda>f.
             replicate 20 (CHR ''/'') @ [CHR 0x0D, CHR 0x0A]
             @ ''# '' @ resolve h f @ [CHR 0x0D, CHR 0x0A]
             @ replicate 20 (CHR ''/'') @ [CHR 0x0D, CHR 0x0A]
             @ file_text es f
             @ [CHR 0x0D, CHR 0x0A, CHR 0x0D, CHR 0x0A])"
    by (rule ext) (rule block_eq)
  with run_completed(1) [OF assms] show "output_of (run h es) =
           Some (concat (map (\<lambda>f.
             replicate 20 (CHR ''/'') @ [CHR 0x0D, CHR 0x0A]
             @ ''# '' @ resolve h f @ [CHR 0x0D, CHR 0x0A]
             @ replicate 20 (CHR ''/'') @ [CHR 0x0D, CHR 0x0A]
             @ file_text es f
             @ [CHR 0x0D, CHR 0x0A, CHR 0x0D, CHR 0x0A]) (selected es)))"
    by simp
next
  fix f assume f: "f \<in> set (selected es)"
  with run_completed(2) [OF assms] have "is_file es f" by blast
  then show "read_text es f Ignore = Inr (file_text es f)" by (rule read_text_file_text)
next
  fix f assume f: "f \<in> set (selected es)"
  from selected_shape(1) [OF f] show "\<exists>rest. resolve h f = CHR ''/'' # rest"
    by (rule resolve_absolute)
next
  fix l show "run (h\<lparr>linesep := l\<rparr>) es = run h es" by (rule run_linesep)
qed

theorem block_format_witness:
  "output_of (run example_host example_tree) = Some (
     ''////////////////////'' @ [CHR 0x0D, CHR 0x0A] @ ''# /home/u/src/main.rs'' @ [CHR 0x0D, CHR 0x0A]
     @ ''////////////////////'' @ [CHR 0x0D, CHR 0x0A] @ ''fn main() {}''
     @ [CHR 0x0D, CHR 0x0A, CHR 0x0D, CHR 0x0A]
     @ ''////////////////////'' @ [CHR 0x0D, CHR 0x0A] @ ''# /home/u/grammar/expr.pest'' @ [CHR 0x0D, CHR 0x0A]
     @ ''////////////////////'' @ [CHR 0x0D, CHR 0x0A] @ ''expr = { ... }''
     @ [CHR 0x0D, CHR 0x0A, CHR 0x0D, CHR 0x0A]
     @ ''////////////////////'' @ [CHR 0x0D, CHR 0x0A] @ ''# /home/u/Cargo.toml'' @ [CHR 0x0D, CHR 0x0A]
     @ ''////////////////////'' @ [CHR 0x0D, CHR 0x0A] @ ''[package]''
     @ [CHR 0x0D, CHR 0x0A, CHR 0x0D, CHR 0x0A])
   \<and> run (example_host\<lparr>linesep := [CHR 0x0D, CHR 0x0A]\<rparr>) example_tree
       = run example_host example_tree"
proof -
  have w: "wf_entries example_tree" by (simp add: example_tree_def)
  have e: "err (run example_host example_tree) = None" by code_simp
  have s: "selected example_tree
           = [[''src'', ''main.rs''], [''grammar'', ''expr.pest''], [''Cargo.toml'']]"
    by code_simp
  have t: "file_text example_tree [''src'', ''main.rs''] = ''fn main() {}''"
    "file_text example_tree [''grammar'', ''expr.pest''] = ''expr = { ... }''"
    "file_text example_tree [''Cargo.toml''] = ''[package]''"
    by code_simp+
  have r: "resolve example_host [''src'', ''main.rs''] = ''/home/u/src/main.rs''"
    "resolve example_host [''grammar'', ''expr.pest''] = ''/home/u/grammar/expr.pest''"
    "resolve example_host [''Cargo.toml''] = ''/home/u/Cargo.toml''"
    by (simp_all add: resolve_def example_host_def)
  have b: "replicate 20 (CHR ''/'') = ''////////////////////''" by code_simp
  from block_format [OF w e] show ?thesis
    unfolding s by (simp add: t r b)
qed

text \<open>
  C5, as amended. In the output of a completed run the content of a file's block is
  the text decoded from its bytes after the universal-newlines translation of the
  text-mode read: every CR LF and every other CR is one LF, so the content has no
  CR; the characters other than CR and LF are the same, in the same order; decoded
  text without a CR is written unchanged.
\<close>

theorem content_newlines_translated:
  assumes "wf_entries es" and "err (run h es) = None"
    and "f \<in> set (selected es)" and "lookup_path es f = Some (File b)"
  shows "output_of (run h es) = Some (concat (map (block h es) (selected es)))
         \<and> (\<exists>t. utf8_decode Ignore b = Inr t
                \<and> block h es f = header h f @ universal_newlines t @ CRLF @ CRLF
                \<and> CR \<notin> set (universal_newlines t)
                \<and> filter (\<lambda>c. c \<noteq> CR \<and> c \<noteq> LF) (universal_newlines t)
                    = filter (\<lambda>c. c \<noteq> CR \<and> c \<noteq> LF) t
                \<and> (CR \<notin> set t \<longrightarrow> universal_newlines t = t))
         \<and> (\<forall>u v. universal_newlines (u @ CRLF @ v)
                     = universal_newlines u @ [LF] @ universal_newlines v)"
proof (intro conjI allI)
  show "output_of (run h es) = Some (concat (map (block h es) (selected es)))"
    by (rule run_completed(1) [OF assms(1,2)])
next
  from block_file [OF assms(4), of h] obtain t where
    "utf8_decode Ignore b = Inr t"
    "block h es f = header h f @ universal_newlines t @ CRLF @ CRLF" by blast
  then show "\<exists>t. utf8_decode Ignore b = Inr t
                \<and> block h es f = header h f @ universal_newlines t @ CRLF @ CRLF
                \<and> CR \<notin> set (universal_newlines t)
                \<and> filter (\<lambda>c. c \<noteq> CR \<and> c \<noteq> LF) (universal_newlines t)
                    = filter (\<lambda>c. c \<noteq> CR \<and> c \<noteq> LF) t
                \<and> (CR \<notin> set t \<longrightarrow> universal_newlines t = t)"
    using universal_newlines_no_CR universal_newlines_other universal_newlines_id by blast
next
  fix u v
  show "universal_newlines (u @ CRLF @ v) = universal_newlines u @ [LF] @ universal_newlines v"
    by (rule universal_newlines_CRLF)
qed

theorem content_newlines_translated_witness:
  "output_of (run example_host crlf_tree)
     = Some (concat (map (block example_host crlf_tree) (selected crlf_tree)))
   \<and> selected crlf_tree = [[''a.rs'']]
   \<and> utf8_decode Ignore [CHR ''x'', CHR 0x0D, CHR 0x0A, CHR ''y'']
       = Inr [CHR ''x'', CHR 0x0D, CHR 0x0A, CHR ''y'']
   \<and> block example_host crlf_tree [''a.rs'']
       = header example_host [''a.rs''] @ [CHR ''x'', CHR 0x0A, CHR ''y''] @ CRLF @ CRLF
   \<and> block example_host example_tree [''Cargo.toml'']
       = header example_host [''Cargo.toml''] @ ''[package]'' @ CRLF @ CRLF"
proof -
  have w: "wf_entries crlf_tree" by (simp add: crlf_tree_def)
  have e: "err (run example_host crlf_tree) = None" by code_simp
  have s: "selected crlf_tree = [[''a.rs'']]" by code_simp
  then have m: "[''a.rs''] \<in> set (selected crlf_tree)" by simp
  have l: "lookup_path crlf_tree [''a.rs'']
           = Some (File [CHR ''x'', CHR 0x0D, CHR 0x0A, CHR ''y''])"
    by (simp add: crlf_tree_def)
  have d: "utf8_decode Ignore [CHR ''x'', CHR 0x0D, CHR 0x0A, CHR ''y'']
           = Inr [CHR ''x'', CHR 0x0D, CHR 0x0A, CHR ''y'']" by code_simp
  have u: "universal_newlines [CHR ''x'', CHR 0x0D, CHR 0x0A, CHR ''y'']
           = [CHR ''x'', CHR 0x0A, CHR ''y'']" by code_simp
  from content_newlines_translated [OF w e m l] obtain t where
    o: "output_of (run example_host crlf_tree)
          = Some (concat (map (block example_host crlf_tree) (selected crlf_tree)))"
    and t: "utf8_decode Ignore [CHR ''x'', CHR 0x0D, CHR 0x0A, CHR ''y''] = Inr t"
      "block example_host crlf_tree [''a.rs'']
         = header example_host [''a.rs''] @ universal_newlines t @ CRLF @ CRLF"
    by blast
  from t(1) d have "t = [CHR ''x'', CHR 0x0D, CHR 0x0A, CHR ''y'']" by simp
  with t(2) u have "block example_host crlf_tree [''a.rs'']
       = header example_host [''a.rs''] @ [CHR ''x'', CHR 0x0A, CHR ''y''] @ CRLF @ CRLF"
    by simp
  note first = this
  have w2: "wf_entries example_tree" by (simp add: example_tree_def)
  have e2: "err (run example_host example_tree) = None" by code_simp
  have m2: "[''Cargo.toml''] \<in> set (selected example_tree)" by code_simp
  have l2: "lookup_path example_tree [''Cargo.toml''] = Some (File ''[package]'')"
    by (simp add: example_tree_def)
  have d2: "utf8_decode Ignore ''[package]'' = Inr ''[package]''" by code_simp
  have c2: "CR \<notin> set ''[package]''" by (simp add: CR_def)
  from content_newlines_translated [OF w2 e2 m2 l2] obtain t2 where
    t2: "utf8_decode Ignore ''[package]'' = Inr t2"
      "block example_host example_tree [''Cargo.toml'']
         = header example_host [''Cargo.toml''] @ universal_newlines t2 @ CRLF @ CRLF"
      "CR \<notin> set t2 \<longrightarrow> universal_newlines t2 = t2"
    by blast
  from t2(1) d2 have "t2 = ''[package]''" by simp
  with t2(2,3) c2 have "block example_host example_tree [''Cargo.toml'']
       = header example_host [''Cargo.toml''] @ ''[package]'' @ CRLF @ CRLF"
    by simp
  with first o s d show ?thesis by (intro conjI)
qed

text \<open>
  C5 as stated fails on a file with a CR LF line end: the decoded text is the four
  characters x, CR, LF, y, and the content written between the header and the two
  trailing CR LF is x, LF, y.
\<close>

theorem crlf_not_preserved_counterexample:
  "utf8_decode Ignore [CHR ''x'', CHR 0x0D, CHR 0x0A, CHR ''y'']
     = Inr [CHR ''x'', CHR 0x0D, CHR 0x0A, CHR ''y'']
   \<and> err (run example_host crlf_tree) = None
   \<and> output_of (run example_host crlf_tree)
       = Some (header example_host [''a.rs''] @ [CHR ''x'', CHR 0x0A, CHR ''y'']
               @ [CHR 0x0D, CHR 0x0A, CHR 0x0D, CHR 0x0A])
   \<and> output_of (run example_host crlf_tree)
       \<noteq> Some (header example_host [''a.rs''] @ [CHR ''x'', CHR 0x0D, CHR 0x0A, CHR ''y'']
               @ [CHR 0x0D, CHR 0x0A, CHR 0x0D, CHR 0x0A])"
  by code_simp

text \<open>
  C6. Running the script on the tree that a run has left gives the same result again,
  the same output file included. An output file that is there at the start is
  unlinked first, and the run is the run on the tree without it.
\<close>

theorem rerun_identical:
  "run h (tree (run h es)) = run h es
   \<and> output_of (run h (tree (run h es))) = output_of (run h es)
   \<and> (map_of es OUTPUT = Some (File old) \<longrightarrow>
        run h es = run h (filter (\<lambda>(n, x). n \<noteq> OUTPUT) es))"
  using run_twice [of h es] run_forgets [of es old h] by simp

theorem rerun_identical_witness:
  "map_of rerun_tree OUTPUT = Some (File ''old output'')
   \<and> run example_host rerun_tree = run example_host [(''lib.rs'', File ''mod a;'')]
   \<and> output_of (run example_host (tree (run example_host rerun_tree)))
       = output_of (run example_host rerun_tree)"
proof -
  have m: "map_of rerun_tree OUTPUT = Some (File ''old output'')"
    by (simp add: rerun_tree_def OUTPUT_def)
  have f: "filter (\<lambda>(n, x). n \<noteq> OUTPUT) rerun_tree = [(''lib.rs'', File ''mod a;'')]"
    by (simp add: rerun_tree_def OUTPUT_def)
  note th = rerun_identical [of example_host rerun_tree "''old output''"]
  from th have a: "output_of (run example_host (tree (run example_host rerun_tree)))
                   = output_of (run example_host rerun_tree)"
    by (elim conjE)
  from th m have "run example_host rerun_tree
                  = run example_host (filter (\<lambda>(n, x). n \<noteq> OUTPUT) rerun_tree)"
    by (elim conjE) (rule mp)
  then have b: "run example_host rerun_tree = run example_host [(''lib.rs'', File ''mod a;'')]"
    by (simp only: f)
  from m a b show ?thesis by (intro conjI)
qed

text \<open>
  C7. Decoding with the \<^verbatim>\<open>ignore\<close> handler never raises. Its result is a
  subsequence of the bytes and well-formed UTF-8; well-formed bytes come back
  unchanged; a well-formed prefix is kept whole and decoding goes on behind it; where
  no well-formed character starts, only the lead byte and at most two continuation
  bytes behind it are dropped and decoding goes on directly after them; so an invalid
  start byte between two well-formed texts is dropped and both texts are kept. No run
  ends with a decoding error. The loop writes the block of a regular file, whatever
  its bytes, and goes on with the remaining paths, and a run completes with every
  block written when every selected path is a regular file; both for paths whose
  names can be encoded, the path line being the one write that can raise.
\<close>

theorem invalid_bytes_dropped:
  "(\<exists>t. utf8_decode Ignore b = Inr t \<and> subseq t b \<and> utf8_decode Strict t = Inr t)
   \<and> (utf8_decode Strict b = Inr b' \<longrightarrow> utf8_decode Ignore b = Inr b)
   \<and> (utf8_decode Strict u = Inr u' \<and> utf8_decode Ignore v = Inr t' \<longrightarrow>
        utf8_decode Ignore (u @ v) = Inr (u @ t'))
   \<and> ((\<forall>p. p \<noteq> [] \<and> prefix p (c # s) \<longrightarrow> utf8_decode Strict p \<noteq> Inr p) \<longrightarrow>
        (\<exists>k. k \<le> 2 \<and> k \<le> length s \<and> list_all is_cont (take k s)
             \<and> utf8_decode Ignore (c # s) = utf8_decode Ignore (drop k s)))
   \<and> (utf8_decode Strict u = Inr u' \<and> utf8_decode Strict w = Inr w'
        \<and> ((0x80 \<le> byte x \<and> byte x < 0xC2) \<or> 0xF5 \<le> byte x) \<longrightarrow>
        utf8_decode Ignore (u @ x # w) = Inr (u @ w))
   \<and> err (run h es) \<noteq> Some UnicodeDecodeError
   \<and> (lookup_path es f = Some (File b) \<and> encodable (resolve h f) \<longrightarrow>
        (\<exists>t. utf8_decode Ignore b = Inr t
              \<and> block h es f = header h f @ universal_newlines t @ CRLF @ CRLF)
        \<and> write_loop h es (f # fs) out = write_loop h es fs (out @ block h es f))
   \<and> (wf_entries es \<and> (\<forall>sub. map_of es OUTPUT \<noteq> Some (Dir sub))
        \<and> (\<forall>g \<in> set (selected es). is_file es g \<and> encodable (resolve h g)) \<longrightarrow>
        err (run h es) = None
        \<and> output_of (run h es) = Some (concat (map (block h es) (selected es))))"
proof (intro conjI impI)
  from utf8_ignore_total obtain t where t: "utf8_decode Ignore b = Inr t" by blast
  with utf8_ignore_subseq [OF t] utf8_ignore_valid [OF t]
  show "\<exists>t. utf8_decode Ignore b = Inr t \<and> subseq t b \<and> utf8_decode Strict t = Inr t"
    by blast
next
  assume a: "utf8_decode Strict b = Inr b'"
  from utf8_strict_id [OF a] utf8_strict_ignore [OF a] show "utf8_decode Ignore b = Inr b"
    by simp
next
  assume "utf8_decode Strict u = Inr u' \<and> utf8_decode Ignore v = Inr t'"
  then show "utf8_decode Ignore (u @ v) = Inr (u @ t')"
    using utf8_ignore_valid_prefix by blast
next
  assume "\<forall>p. p \<noteq> [] \<and> prefix p (c # s) \<longrightarrow> utf8_decode Strict p \<noteq> Inr p"
  then have "\<forall>p. p \<noteq> [] \<and> prefix p (c # s) \<longrightarrow> \<not> encodable p"
    by (simp add: encodable_iff)
  then show "\<exists>k. k \<le> 2 \<and> k \<le> length s \<and> list_all is_cont (take k s)
                \<and> utf8_decode Ignore (c # s) = utf8_decode Ignore (drop k s)"
    by (rule utf8_ignore_drop)
next
  assume "utf8_decode Strict u = Inr u' \<and> utf8_decode Strict w = Inr w'
          \<and> ((0x80 \<le> byte x \<and> byte x < 0xC2) \<or> 0xF5 \<le> byte x)"
  then show "utf8_decode Ignore (u @ x # w) = Inr (u @ w)"
    using utf8_ignore_between by blast
next
  show "err (run h es) \<noteq> Some UnicodeDecodeError" by (rule run_no_decode_error)
next
  assume l: "lookup_path es f = Some (File b) \<and> encodable (resolve h f)"
  from l block_file [of es f b h]
  show "\<exists>t. utf8_decode Ignore b = Inr t
            \<and> block h es f = header h f @ universal_newlines t @ CRLF @ CRLF" by blast
  from l write_loop_step [of es f b h fs out]
  show "write_loop h es (f # fs) out = write_loop h es fs (out @ block h es f)" by blast
next
  assume a: "wf_entries es \<and> (\<forall>sub. map_of es OUTPUT \<noteq> Some (Dir sub))
        \<and> (\<forall>g \<in> set (selected es). is_file es g \<and> encodable (resolve h g))"
  then have e: "err (run h es) = None" using run_completes by blast
  then show "err (run h es) = None" .
  from a e show "output_of (run h es) = Some (concat (map (block h es) (selected es)))"
    using run_completed(1) by blast
qed

theorem invalid_bytes_dropped_witness:
  "utf8_decode Strict [CHR ''a'', CHR 0xFF, CHR ''b'', CHR 0xC3, CHR 0xA9, CHR 0xE2, CHR 0x82]
     = Inl UnicodeDecodeError
   \<and> utf8_decode Ignore [CHR ''a'', CHR 0xFF, CHR ''b'', CHR 0xC3, CHR 0xA9, CHR 0xE2, CHR 0x82]
     = Inr [CHR ''a'', CHR ''b'', CHR 0xC3, CHR 0xA9]
   \<and> utf8_decode Strict ''ok'' = Inr ''ok'' \<and> utf8_decode Ignore ''ok'' = Inr ''ok''
   \<and> utf8_decode Ignore (''a'' @ [CHR 0xFF, CHR ''b'']) = Inr (''a'' @ ''b'')
   \<and> (\<exists>k. k \<le> 2 \<and> k \<le> length [CHR 0x82, CHR ''a'']
          \<and> list_all is_cont (take k [CHR 0x82, CHR ''a''])
          \<and> utf8_decode Ignore (CHR 0xE2 # [CHR 0x82, CHR ''a''])
              = utf8_decode Ignore (drop k [CHR 0x82, CHR ''a'']))
   \<and> utf8_decode Ignore (''fn'' @ CHR 0xFF # ''main'') = Inr (''fn'' @ ''main'')
   \<and> write_loop example_host invalid_tree [[''a.rs''], [''b.rs'']] []
       = write_loop example_host invalid_tree [[''b.rs'']]
           ([] @ block example_host invalid_tree [''a.rs''])
   \<and> selected invalid_tree = [[''a.rs''], [''b.rs'']]
   \<and> err (run example_host invalid_tree) = None
   \<and> output_of (run example_host invalid_tree)
       = Some (header example_host [''a.rs''] @ [CHR ''a'', CHR ''b'', CHR 0xC3, CHR 0xA9]
               @ CRLF @ CRLF
               @ header example_host [''b.rs''] @ ''ok'' @ CRLF @ CRLF)"
proof -
  let ?bad = "[CHR ''a'', CHR 0xFF, CHR ''b'', CHR 0xC3, CHR 0xA9, CHR 0xE2, CHR 0x82]"
  have st: "utf8_decode Strict ?bad = Inl UnicodeDecodeError" by code_simp
  have ig: "utf8_decode Ignore ?bad = Inr [CHR ''a'', CHR ''b'', CHR 0xC3, CHR 0xA9]"
    by code_simp
  have w: "wf_entries invalid_tree" by (simp add: invalid_tree_def)
  have d: "\<forall>sub. map_of invalid_tree OUTPUT \<noteq> Some (Dir sub)"
    by (simp add: invalid_tree_def OUTPUT_def)
  have s: "selected invalid_tree = [[''a.rs''], [''b.rs'']]" by code_simp
  have n: "encodable (resolve example_host [''a.rs''])"
    "encodable (resolve example_host [''b.rs''])" by code_simp+
  have i: "\<forall>g \<in> set (selected invalid_tree).
             is_file invalid_tree g \<and> encodable (resolve example_host g)"
    unfolding s using n by (simp add: is_file_def invalid_tree_def)
  have b: "block example_host invalid_tree [''a.rs'']
             = header example_host [''a.rs''] @ [CHR ''a'', CHR ''b'', CHR 0xC3, CHR 0xA9]
               @ CRLF @ CRLF"
    "block example_host invalid_tree [''b.rs'']
             = header example_host [''b.rs''] @ ''ok'' @ CRLF @ CRLF"
    by code_simp+
  from invalid_bytes_dropped [where b = ?bad and h = example_host and es = invalid_tree] w d i
  have r: "err (run example_host invalid_tree) = None
        \<and> output_of (run example_host invalid_tree)
            = Some (concat (map (block example_host invalid_tree) (selected invalid_tree)))"
    by blast
  have ok: "utf8_decode Strict ''ok'' = Inr ''ok''" by code_simp
  from invalid_bytes_dropped [where b = "''ok''" and b' = "''ok''"] ok
  have ok': "utf8_decode Ignore ''ok'' = Inr ''ok''" by blast
  have pa: "utf8_decode Strict ''a'' = Inr ''a''"
    and pb: "utf8_decode Ignore [CHR 0xFF, CHR ''b''] = Inr ''b''" by code_simp+
  from invalid_bytes_dropped [where u = "''a''" and u' = "''a''"
      and v = "[CHR 0xFF, CHR ''b'']" and t' = "''b''"] pa pb
  have pre: "utf8_decode Ignore (''a'' @ [CHR 0xFF, CHR ''b'']) = Inr (''a'' @ ''b'')" by blast
  have q: "utf8_decode Strict [CHR 0xE2] \<noteq> Inr [CHR 0xE2]"
    "utf8_decode Strict [CHR 0xE2, CHR 0x82] \<noteq> Inr [CHR 0xE2, CHR 0x82]"
    "utf8_decode Strict [CHR 0xE2, CHR 0x82, CHR ''a''] \<noteq> Inr [CHR 0xE2, CHR 0x82, CHR ''a'']"
    by code_simp+
  have np: "\<forall>p. p \<noteq> [] \<and> prefix p (CHR 0xE2 # [CHR 0x82, CHR ''a'']) \<longrightarrow>
              utf8_decode Strict p \<noteq> Inr p"
  proof (intro allI impI)
    fix p assume "p \<noteq> [] \<and> prefix p (CHR 0xE2 # [CHR 0x82, CHR ''a''])"
    then have "p = [CHR 0xE2] \<or> p = [CHR 0xE2, CHR 0x82] \<or> p = [CHR 0xE2, CHR 0x82, CHR ''a'']"
      by (auto simp: prefix_Cons)
    with q show "utf8_decode Strict p \<noteq> Inr p" by blast
  qed
  from invalid_bytes_dropped [where c = "CHR 0xE2" and s = "[CHR 0x82, CHR ''a'']"] np
  have dr: "\<exists>k. k \<le> 2 \<and> k \<le> length [CHR 0x82, CHR ''a'']
          \<and> list_all is_cont (take k [CHR 0x82, CHR ''a''])
          \<and> utf8_decode Ignore (CHR 0xE2 # [CHR 0x82, CHR ''a''])
              = utf8_decode Ignore (drop k [CHR 0x82, CHR ''a''])" by blast
  have ba: "utf8_decode Strict ''fn'' = Inr ''fn''" "utf8_decode Strict ''main'' = Inr ''main''"
    by code_simp+
  have bx: "(0x80 \<le> byte (CHR 0xFF) \<and> byte (CHR 0xFF) < 0xC2) \<or> 0xF5 \<le> byte (CHR 0xFF)"
    by (simp add: byte_def)
  from invalid_bytes_dropped [where u = "''fn''" and u' = "''fn''" and w = "''main''"
      and w' = "''main''" and x = "CHR 0xFF"] ba bx
  have bt: "utf8_decode Ignore (''fn'' @ CHR 0xFF # ''main'') = Inr (''fn'' @ ''main'')"
    by blast
  have l: "lookup_path invalid_tree [''a.rs''] = Some (File ?bad)"
    by (simp add: invalid_tree_def)
  from invalid_bytes_dropped [where b = ?bad and h = example_host and es = invalid_tree
      and f = "[''a.rs'']" and fs = "[[''b.rs'']]" and out = "[]"] l n(1)
  have step: "write_loop example_host invalid_tree [[''a.rs''], [''b.rs'']] []
       = write_loop example_host invalid_tree [[''b.rs'']]
           ([] @ block example_host invalid_tree [''a.rs''])" by blast
  from r s b have o: "output_of (run example_host invalid_tree)
       = Some (header example_host [''a.rs''] @ [CHR ''a'', CHR ''b'', CHR 0xC3, CHR 0xA9]
               @ CRLF @ CRLF
               @ header example_host [''b.rs''] @ ''ok'' @ CRLF @ CRLF)" by simp
  from r have e: "err (run example_host invalid_tree) = None" by simp
  from st ig ok ok' pre dr bt step s e o show ?thesis by (intro conjI)
qed

text \<open>
  C8. A run changes no entry of the working directory other than \<^verbatim>\<open>combined.txt\<close>:
  the other entries are the same, in the same order and with the same content, and
  every path that does not start at \<^verbatim>\<open>combined.txt\<close> leads to the same node as
  before. The state of the model has nothing but the tree and the console.
\<close>

theorem only_output_changes:
  "filter (\<lambda>(n, x). n \<noteq> OUTPUT) (tree (run h es)) = filter (\<lambda>(n, x). n \<noteq> OUTPUT) es
   \<and> (\<forall>n rest. n \<noteq> OUTPUT \<longrightarrow>
         lookup_path (tree (run h es)) (n # rest) = lookup_path es (n # rest))"
  using run_frame [of h es] map_of_tree_other [of _ h es] lookup_path_hd by blast

theorem only_output_changes_witness:
  "filter (\<lambda>(n, x). n \<noteq> OUTPUT) (tree (run example_host rerun_tree))
     = [(''lib.rs'', File ''mod a;'')]
   \<and> lookup_path (tree (run example_host rerun_tree)) [''lib.rs''] = Some (File ''mod a;'')"
proof -
  have f: "filter (\<lambda>(n, x). n \<noteq> OUTPUT) rerun_tree = [(''lib.rs'', File ''mod a;'')]"
    by (simp add: rerun_tree_def OUTPUT_def)
  have n: "''lib.rs'' \<noteq> OUTPUT" by (simp add: OUTPUT_def)
  have l: "lookup_path rerun_tree [''lib.rs''] = Some (File ''mod a;'')"
    by (simp add: rerun_tree_def)
  note th = only_output_changes [of example_host rerun_tree]
  from th have a: "filter (\<lambda>(n, x). n \<noteq> OUTPUT) (tree (run example_host rerun_tree))
                   = filter (\<lambda>(n, x). n \<noteq> OUTPUT) rerun_tree"
    by (elim conjE)
  from th n have "lookup_path (tree (run example_host rerun_tree)) [''lib.rs'']
                  = lookup_path rerun_tree [''lib.rs'']"
    by blast
  with a f l show ?thesis by (simp only: simp_thms)
qed

text \<open>
  C9, as amended. In a well-formed tree in which no entry, file or directory, has a
  path that meets one of the three criteria, and in which \<^verbatim>\<open>combined.txt\<close> is not a
  directory, the run unlinks an earlier output file, creates an empty one, prints
  both messages and completes.
\<close>

theorem nothing_selected_empty_output:
  assumes "wf_entries es"
    and "\<forall>f x. lookup_path es f = Some x \<longrightarrow>
           \<not> ((ends_with ''.rs'' (last f) \<and> ''target'' \<notin> set f)
              \<or> (ends_with ''.pest'' (last f) \<and> ''addons'' \<notin> set f)
              \<or> (last f = ''Cargo.toml'' \<and> ''addons'' \<notin> set f))"
    and "\<forall>sub. map_of es OUTPUT \<noteq> Some (Dir sub)"
  shows "run h es =
           \<lparr>tree = filter (\<lambda>(n, x). n \<noteq> OUTPUT) es @ [(OUTPUT, File [])],
            console = [''[+] Collecting .gd / .tscn files...'',
                       ''[+] Done! Output written to combined.txt''],
            err = None\<rparr>
         \<and> output_of (run h es) = Some []"
proof -
  have sel: "selected es = []"
  proof (rule ccontr)
    assume "selected es \<noteq> []"
    then obtain f where f: "f \<in> set (selected es)" by (cases "selected es") auto
    from selected_sound [OF assms(1) f] obtain x where "lookup_path es f = Some x" by blast
    with assms(2) selected_shape(2) [OF f] show False by blast
  qed
  from unlink_output_ok [OF assms(3)] obtain es1 where u: "unlink_output es = Inr es1" by blast
  from selected_unlink [OF assms(1) u] sel have sel1: "selected es1 = []" by simp
  from unlink_output_cases [OF u] have es1: "es1 = filter (\<lambda>(n, x). n \<noteq> OUTPUT) es" by simp
  have "run h es =
           \<lparr>tree = filter (\<lambda>(n, x). n \<noteq> OUTPUT) es @ [(OUTPUT, File [])],
            console = [''[+] Collecting .gd / .tscn files...'',
                       ''[+] Done! Output written to combined.txt''],
            err = None\<rparr>"
    unfolding run_Inr [OF u] sel1 by (simp add: es1 OUTPUT_def)
  moreover from run_unlinked(3) [OF u, of h] sel1 have "output_of (run h es) = Some []" by simp
  ultimately show ?thesis by simp
qed

theorem nothing_selected_empty_output_witness:
  "run example_host [(''combined.txt'', File ''old output''), (''notes.md'', File ''x'')] =
     \<lparr>tree = [(''notes.md'', File ''x''), (''combined.txt'', File [])],
      console = [''[+] Collecting .gd / .tscn files...'',
                 ''[+] Done! Output written to combined.txt''],
      err = None\<rparr>"
proof -
  let ?T = "[(''combined.txt'', File ''old output''), (''notes.md'', File ''x'')]"
  have w: "wf_entries ?T" by simp
  have look: "\<And>f x. lookup_path ?T f = Some x \<Longrightarrow> f = [''combined.txt''] \<or> f = [''notes.md'']"
  proof -
    fix f x assume a: "lookup_path ?T f = Some x"
    show "f = [''combined.txt''] \<or> f = [''notes.md'']"
    proof (cases f)
      case Nil
      with a show ?thesis by simp
    next
      case (Cons n rest)
      with a show ?thesis by (cases rest) (auto split: if_splits)
    qed
  qed
  have n: "\<forall>f x. lookup_path ?T f = Some x \<longrightarrow>
           \<not> ((ends_with ''.rs'' (last f) \<and> ''target'' \<notin> set f)
              \<or> (ends_with ''.pest'' (last f) \<and> ''addons'' \<notin> set f)
              \<or> (last f = ''Cargo.toml'' \<and> ''addons'' \<notin> set f))"
  proof (intro allI impI)
    fix f x assume "lookup_path ?T f = Some x"
    from look [OF this] show "\<not> ((ends_with ''.rs'' (last f) \<and> ''target'' \<notin> set f)
              \<or> (ends_with ''.pest'' (last f) \<and> ''addons'' \<notin> set f)
              \<or> (last f = ''Cargo.toml'' \<and> ''addons'' \<notin> set f))"
      by (auto simp: ends_with_def)
  qed
  have d: "\<forall>sub. map_of ?T OUTPUT \<noteq> Some (Dir sub)" by (simp add: OUTPUT_def)
  from nothing_selected_empty_output [OF w n d, of example_host]
  show ?thesis by (simp add: OUTPUT_def)
qed

text \<open>
  C9 as stated fails on two trees without any regular file. With a directory named
  \<^verbatim>\<open>x.rs\<close> the glob yields the directory, its header is written and the read raises;
  with a directory named \<^verbatim>\<open>combined.txt\<close> the unlink raises before anything is
  printed.
\<close>

theorem no_file_yet_aborted_counterexample:
  "filter (is_file [(''x.rs'', Dir [])]) (rglob (\<lambda>n. True) [(''x.rs'', Dir [])]) = []
   \<and> err (run example_host [(''x.rs'', Dir [])]) = Some IsADirectoryError
   \<and> console (run example_host [(''x.rs'', Dir [])]) = [''[+] Collecting .gd / .tscn files...'']
   \<and> output_of (run example_host [(''x.rs'', Dir [])])
       = Some (''////////////////////'' @ [CHR 0x0D, CHR 0x0A] @ ''# /home/u/x.rs''
               @ [CHR 0x0D, CHR 0x0A] @ ''////////////////////'' @ [CHR 0x0D, CHR 0x0A])
   \<and> filter (is_file [(''combined.txt'', Dir [])]) (rglob (\<lambda>n. True) [(''combined.txt'', Dir [])]) = []
   \<and> run example_host [(''combined.txt'', Dir [])]
       = \<lparr>tree = [(''combined.txt'', Dir [])], console = [], err = Some IsADirectoryError\<rparr>"
  by code_simp

text \<open>
  C10. The name \<^verbatim>\<open>combined.txt\<close> matches none of the three patterns, so no selected
  path has it as its name, in any tree; and the output of a run does not depend on
  what an output file of an earlier run contained.
\<close>

theorem output_never_selected:
  "OUTPUT = ''combined.txt''
   \<and> \<not> ends_with ''.rs'' OUTPUT \<and> \<not> ends_with ''.pest'' OUTPUT \<and> OUTPUT \<noteq> ''Cargo.toml''
   \<and> (\<forall>f \<in> set (selected es). last f \<noteq> OUTPUT)
   \<and> output_of (run h ((OUTPUT, File old) # es)) = output_of (run h ((OUTPUT, File new) # es))"
proof (intro conjI ballI)
  show "OUTPUT = ''combined.txt''" by (rule OUTPUT_def)
  show "\<not> ends_with ''.rs'' OUTPUT" by (rule not_rs_OUTPUT)
  show "\<not> ends_with ''.pest'' OUTPUT" by (rule not_pest_OUTPUT)
  show "OUTPUT \<noteq> ''Cargo.toml''" by (rule not_cargo_OUTPUT)
next
  fix f assume "f \<in> set (selected es)"
  from selected_shape(2) [OF this] not_rs_OUTPUT not_pest_OUTPUT not_cargo_OUTPUT
  show "last f \<noteq> OUTPUT" by auto
next
  have "run h ((OUTPUT, File old) # es) = run h (filter (\<lambda>(n, x). n \<noteq> OUTPUT) es)"
    using run_forgets [of "(OUTPUT, File old) # es" old h] by simp
  moreover have "run h ((OUTPUT, File new) # es) = run h (filter (\<lambda>(n, x). n \<noteq> OUTPUT) es)"
    using run_forgets [of "(OUTPUT, File new) # es" new h] by simp
  ultimately show "output_of (run h ((OUTPUT, File old) # es))
                   = output_of (run h ((OUTPUT, File new) # es))"
    by simp
qed

theorem output_never_selected_witness:
  "selected (tree (run example_host example_tree))
     = [[''src'', ''main.rs''], [''grammar'', ''expr.pest''], [''Cargo.toml'']]
   \<and> list_all (\<lambda>f. last f \<noteq> ''combined.txt'')
        (selected (tree (run example_host example_tree)))
   \<and> output_of (run example_host rerun_tree)
       = output_of (run example_host [(OUTPUT, File []), (''lib.rs'', File ''mod a;'')])"
proof -
  have s: "selected (tree (run example_host example_tree))
           = [[''src'', ''main.rs''], [''grammar'', ''expr.pest''], [''Cargo.toml'']]"
    by code_simp
  have r: "rerun_tree = [(OUTPUT, File ''old output''), (''lib.rs'', File ''mod a;'')]"
    by (simp add: rerun_tree_def OUTPUT_def)
  from output_never_selected [of "tree (run example_host example_tree)" example_host]
  have a: "list_all (\<lambda>f. last f \<noteq> ''combined.txt'')
             (selected (tree (run example_host example_tree)))"
    by (simp add: OUTPUT_def list_all_iff)
  from output_never_selected [of "[(''lib.rs'', File ''mod a;'')]" example_host "''old output''" "[]"]
  have "output_of (run example_host rerun_tree)
        = output_of (run example_host [(OUTPUT, File []), (''lib.rs'', File ''mod a;'')])"
    unfolding r by (elim conjE)
  with s a show ?thesis by (intro conjI)
qed

end
